theory Spec2Isabelle
  imports Complex_Main "HOL-Library.Sublist"
begin

section \<open>Configuration\<close>

text \<open>
  The module-level constants of \<^verbatim>\<open>main.py\<close> (lines 5-13), gathered in one record so that
  the scenarios of the specification, which use other values, can be run as well.
  Counts are natural numbers, \<^verbatim>\<open>CONTAINERS_PER_VESSEL\<close> is a Python integer (its sign
  matters to the unloading loop) and durations are real numbers (simulated time).
\<close>

record config =
  SIMULATION_TIME :: real
  NUM_BERTHS :: nat
  NUM_QUAY_CRANES :: nat
  NUM_TRUCKS :: nat
  NUM_VESSEL :: nat
  AVERAGE_VESSEL_ARRIVAL_INTERVAL :: real
  CONTAINERS_PER_VESSEL :: int
  CRANE_CONTAINER_TIME :: real
  TRUCK_TRANSPORT_TIME :: real

definition main_config :: config where
  "main_config =
     \<lparr>SIMULATION_TIME = 720, NUM_BERTHS = 2, NUM_QUAY_CRANES = 2, NUM_TRUCKS = 3,
      NUM_VESSEL = 4, AVERAGE_VESSEL_ARRIVAL_INTERVAL = 5 * 60,
      CONTAINERS_PER_VESSEL = 150, CRANE_CONTAINER_TIME = 3, TRUCK_TRANSPORT_TIME = 6\<rparr>"

section \<open>Data model\<close>

datatype error = ValueError | IndexError | ZeroDivisionError | RuntimeError

text \<open>
  The processes of a run: the arrival generator, the \<^verbatim>\<open>arrive\<close> process of vessel
  \<^verbatim>\<open>V{i}\<close>, the \<^verbatim>\<open>load_container\<close> process currently serving vessel \<^verbatim>\<open>V{i}\<close>, and a
  \<^verbatim>\<open>transport_container\<close> process of truck \<^verbatim>\<open>T{k}\<close> for vessel \<^verbatim>\<open>V{i}\<close>.
\<close>

datatype pid = Generator | VesselP nat | LoadP nat | TruckP nat nat

text \<open>
  Modelled from the spec: the events of the scheduler (sections 3 and 4.1), which is the
  simpy library that \<^verbatim>\<open>main.py\<close> imports and that is not part of the sources. An event
  is identified by what it wakes: the start of a process, a timeout a process waits for,
  a granted berth request, a berth release, the end of a process (normal or by an
  exception), and the horizon event of \<^verbatim>\<open>env.run(until=...)\<close>.
\<close>

datatype event =
    Initialize pid
  | Timeout pid
  | Request nat
  | Release nat
  | ProcessEv pid
  | ProcessFail pid error
  | Until

text \<open>
  Modelled from the spec: an entry of the event queue, ordered by time and then by
  insertion sequence (section 3, Event). The library puts a priority between the two:
  process starts and the horizon event are urgent, everything else is normal.
\<close>

type_synonym entry = "real \<times> nat \<times> nat \<times> event"

definition URGENT :: nat where
  "URGENT = 0"

definition NORMAL :: nat where
  "NORMAL = 1"

text \<open>
  The lines \<^verbatim>\<open>Terminal.log\<close> prints, as \<open>(env.now, message)\<close>; the constructors stand for
  the seven f-strings of \<^verbatim>\<open>main.py\<close> (lines 58, 66, 102, 111, 82, 129, 135), with the
  numbers of the vessel \<^verbatim>\<open>V{i}\<close>, crane \<^verbatim>\<open>QC{j}\<close> and truck \<^verbatim>\<open>T{k}\<close> they name.
\<close>

datatype message =
    Arrives nat
  | Berths nat
  | CraneStarts nat nat
  | CraneLoads nat nat
  | Leaves nat
  | TruckStarts nat nat
  | TruckDelivers nat nat

text \<open>
  Where the generator \<^verbatim>\<open>Vessel.arrive\<close> is suspended: not yet started, at
  \<^verbatim>\<open>yield berth_request\<close>, at \<^verbatim>\<open>yield self.env.process(crane.load_container(self))\<close>
  holding the crane named, returned, or ended by an exception.
\<close>

datatype vpc = VCreated | VAwaitBerth | VUnloading nat | VGone | VCrashed

record vessel =
  containers_left :: int
  vpc :: vpc

datatype lpc = LCreated | LAwaitTimeout

datatype gpc = GCreated | GAwaitTimeout nat | GDone | GCrashed

record state =
  now :: real
  eid :: nat
  queue :: "entry list"
  users :: "nat list"
  put_queue :: "nat list"
  quay_cranes :: "nat list"
  trucks :: "nat list"
  vessels :: "nat \<Rightarrow> vessel option"
  loaders :: "nat \<Rightarrow> (nat \<times> lpc) option"
  truckers :: "nat \<times> nat \<Rightarrow> lpc option"
  gen :: gpc
  rng :: nat
  printed :: "(real \<times> message) list"

datatype outcome = Continue state | Stopped state | Crashed error state

section \<open>The scheduler\<close>

text \<open>
  Modelled from the spec: the event queue (section 4.1). \<open>heappop\<close> removes the entry
  with the least \<open>(time, priority, sequence)\<close>.
\<close>

fun entry_less :: "entry \<Rightarrow> entry \<Rightarrow> bool" where
  "entry_less (t1, p1, e1, _) (t2, p2, e2, _) =
     (t1 < t2 \<or> (t1 = t2 \<and> (p1 < p2 \<or> (p1 = p2 \<and> e1 < e2))))"

fun heap_min :: "entry \<Rightarrow> entry list \<Rightarrow> entry" where
  "heap_min m [] = m"
| "heap_min m (x # xs) = heap_min (if entry_less x m then x else m) xs"

definition heappop :: "entry list \<Rightarrow> (entry \<times> entry list) option" where
  "heappop q = (case q of [] \<Rightarrow> None | x # xs \<Rightarrow> (let m = heap_min x xs in Some (m, remove1 m q)))"

text \<open>
  Modelled from the spec: \<open>schedule\<close> (section 4.1) enqueues a wake-up at \<open>now + delay\<close>
  with the next sequence number.
\<close>

definition schedule :: "event \<Rightarrow> nat \<Rightarrow> real \<Rightarrow> state \<Rightarrow> state" where
  "schedule ev prio delay s =
     s\<lparr>queue := queue s @ [(now s + delay, prio, eid s, ev)], eid := eid s + 1\<rparr>"

text \<open>
  Modelled from the spec: a process that ends wakes whoever awaits it at the current time
  (section 3, Process); one that ends by an exception hands the exception on (section 7).
\<close>

definition finish :: "pid \<Rightarrow> state \<Rightarrow> state" where
  "finish p s = schedule (ProcessEv p) NORMAL 0 s"

definition crash :: "pid \<Rightarrow> error \<Rightarrow> state \<Rightarrow> state" where
  "crash p e s = schedule (ProcessFail p e) NORMAL 0 s"

text \<open>\<^verbatim>\<open>Terminal.log\<close> (lines 34-35).\<close>

definition log_msg :: "message \<Rightarrow> state \<Rightarrow> state" where
  "log_msg m s = s\<lparr>printed := printed s @ [(now s, m)]\<rparr>"

section \<open>The berth resource\<close>

text \<open>
  Modelled from the spec: the Resource of section 4.2, which is \<^verbatim>\<open>simpy.Resource\<close> and not
  part of the sources. \<open>users\<close> holds the granted requests (\<open>in_use\<close> is its length),
  \<open>put_queue\<close> the waiting ones (\<^verbatim>\<open>berths.queue\<close>). A request joins the tail of the wait
  queue and the head of the queue is granted if a berth is free; a release takes the grant
  out of \<open>users\<close> and schedules the release event, whose processing grants the head of the
  wait queue at the current time.
\<close>

definition do_put :: "config \<Rightarrow> nat \<Rightarrow> state \<Rightarrow> state" where
  "do_put cfg v s =
     (if length (users s) < NUM_BERTHS cfg
      then schedule (Request v) NORMAL 0 (s\<lparr>users := users s @ [v]\<rparr>)
      else s)"

definition trigger_put :: "config \<Rightarrow> state \<Rightarrow> state" where
  "trigger_put cfg s =
     (case put_queue s of
        [] \<Rightarrow> s
      | v # rest \<Rightarrow>
          (if length (users s) < NUM_BERTHS cfg
           then (do_put cfg v s)\<lparr>put_queue := rest\<rparr>
           else do_put cfg v s))"

definition request :: "config \<Rightarrow> nat \<Rightarrow> state \<Rightarrow> state" where
  "request cfg v s = trigger_put cfg (s\<lparr>put_queue := put_queue s @ [v]\<rparr>)"

definition release :: "nat \<Rightarrow> state \<Rightarrow> state" where
  "release v s = schedule (Release v) NORMAL 0 (s\<lparr>users := remove1 v (users s)\<rparr>)"

section \<open>The processes of main.py\<close>

text \<open>
  \<^verbatim>\<open>QuayCrane.load_container\<close> (lines 95-111): log, one timeout of
  \<^verbatim>\<open>CRANE_CONTAINER_TIME\<close>, then the decrement and the second log. A negative delay makes
  \<^verbatim>\<open>env.timeout\<close> raise.
\<close>

definition load_container :: "config \<Rightarrow> nat \<Rightarrow> state \<Rightarrow> state" where
  "load_container cfg v s =
     (case loaders s v of
        None \<Rightarrow> s
      | Some (c, LCreated) \<Rightarrow>
          (let s1 = log_msg (CraneStarts c v) s in
           if CRANE_CONTAINER_TIME cfg < 0
           then crash (LoadP v) ValueError (s1\<lparr>loaders := (loaders s1)(v := None)\<rparr>)
           else schedule (Timeout (LoadP v)) NORMAL (CRANE_CONTAINER_TIME cfg)
                  (s1\<lparr>loaders := (loaders s1)(v \<mapsto> (c, LAwaitTimeout))\<rparr>))
      | Some (c, LAwaitTimeout) \<Rightarrow>
          (case vessels s v of
             None \<Rightarrow> s
           | Some ves \<Rightarrow>
               finish (LoadP v)
                 (log_msg (CraneLoads c v)
                    (s\<lparr>vessels := (vessels s)(v \<mapsto> ves\<lparr>containers_left := containers_left ves - 1\<rparr>),
                       loaders := (loaders s)(v := None)\<rparr>))))"

text \<open>
  \<^verbatim>\<open>Truck.transport_container\<close> (lines 122-135): log, one timeout of
  \<^verbatim>\<open>TRUCK_TRANSPORT_TIME\<close>, second log.
\<close>

definition transport_container :: "config \<Rightarrow> nat \<Rightarrow> nat \<Rightarrow> state \<Rightarrow> state" where
  "transport_container cfg k v s =
     (case truckers s (k, v) of
        None \<Rightarrow> s
      | Some LCreated \<Rightarrow>
          (let s1 = log_msg (TruckStarts k v) s in
           if TRUCK_TRANSPORT_TIME cfg < 0
           then crash (TruckP k v) ValueError (s1\<lparr>truckers := (truckers s1)((k, v) := None)\<rparr>)
           else schedule (Timeout (TruckP k v)) NORMAL (TRUCK_TRANSPORT_TIME cfg)
                  (s1\<lparr>truckers := (truckers s1)((k, v) \<mapsto> LAwaitTimeout)\<rparr>))
      | Some LAwaitTimeout \<Rightarrow>
          finish (TruckP k v)
            (log_msg (TruckDelivers k v) (s\<lparr>truckers := (truckers s)((k, v) := None)\<rparr>)))"

text \<open>
  The loop of \<^verbatim>\<open>Vessel.arrive\<close> (lines 72-82), entered with crane \<open>c\<close> in hand: while
  containers are left, start a \<^verbatim>\<open>load_container\<close> process and wait for it; otherwise
  return the crane, release the berth, log the departure and end.
\<close>

definition unload :: "config \<Rightarrow> nat \<Rightarrow> nat \<Rightarrow> vessel \<Rightarrow> state \<Rightarrow> state" where
  "unload cfg v c ves s =
     (if 0 < containers_left ves
      then schedule (Initialize (LoadP v)) URGENT 0
             (s\<lparr>vessels := (vessels s)(v \<mapsto> ves\<lparr>vpc := VUnloading c\<rparr>),
                loaders := (loaders s)(v \<mapsto> (c, LCreated))\<rparr>)
      else finish (VesselP v)
             (log_msg (Leaves v)
                (release v
                   (s\<lparr>quay_cranes := quay_cranes s @ [c],
                      vessels := (vessels s)(v \<mapsto> ves\<lparr>vpc := VGone\<rparr>)\<rparr>))))"

text \<open>
  \<^verbatim>\<open>Vessel.arrive\<close> (lines 52-82), resumed at the point where it is suspended.
  \<^verbatim>\<open>quay_cranes.pop(0)\<close> on an empty list raises \<^verbatim>\<open>IndexError\<close>, which ends the process.
\<close>

definition arrive :: "config \<Rightarrow> nat \<Rightarrow> state \<Rightarrow> state" where
  "arrive cfg v s =
     (case vessels s v of
        None \<Rightarrow> s
      | Some ves \<Rightarrow>
          (case vpc ves of
             VCreated \<Rightarrow>
               request cfg v
                 ((log_msg (Arrives v) s)\<lparr>vessels := (vessels s)(v \<mapsto> ves\<lparr>vpc := VAwaitBerth\<rparr>)\<rparr>)
           | VAwaitBerth \<Rightarrow>
               (let s1 = log_msg (Berths v) s in
                case quay_cranes s1 of
                  [] \<Rightarrow>
                    crash (VesselP v) IndexError
                      (s1\<lparr>vessels := (vessels s1)(v \<mapsto> ves\<lparr>vpc := VCrashed\<rparr>)\<rparr>)
                | c # rest \<Rightarrow> unload cfg v c ves (s1\<lparr>quay_cranes := rest\<rparr>))
           | VUnloading c \<Rightarrow> unload cfg v c ves s
           | VGone \<Rightarrow> s
           | VCrashed \<Rightarrow> s))"

text \<open>
  An exception of the awaited \<^verbatim>\<open>load_container\<close> process is thrown into
  \<^verbatim>\<open>Vessel.arrive\<close> at its \<^verbatim>\<open>yield\<close>, where nothing catches it.
\<close>

definition arrive_throw :: "nat \<Rightarrow> error \<Rightarrow> state \<Rightarrow> state" where
  "arrive_throw v e s =
     (case vessels s v of
        None \<Rightarrow> s
      | Some ves \<Rightarrow> crash (VesselP v) e (s\<lparr>vessels := (vessels s)(v \<mapsto> ves\<lparr>vpc := VCrashed\<rparr>)\<rparr>))"

text \<open>
  \<^verbatim>\<open>Vessel.__init__\<close> (lines 43-50): the vessel starts with \<^verbatim>\<open>CONTAINERS_PER_VESSEL\<close>
  containers and its \<^verbatim>\<open>arrive\<close> process is started.
\<close>

definition new_vessel :: "config \<Rightarrow> nat \<Rightarrow> state \<Rightarrow> state" where
  "new_vessel cfg i s =
     schedule (Initialize (VesselP i)) URGENT 0
       (s\<lparr>vessels := (vessels s)(i \<mapsto> \<lparr>containers_left = CONTAINERS_PER_VESSEL cfg, vpc = VCreated\<rparr>)\<rparr>)"

text \<open>
  \<^verbatim>\<open>vessel_on_the_terminal\<close> (lines 138-155). \<open>rnd k\<close> is the value that the \<open>k\<close>-th call
  (from 0) of \<^verbatim>\<open>random.expovariate\<close> returns in the run; \<open>rng\<close> counts the calls made.
  \<open>generator_loop\<close> is the head of iteration \<open>i\<close> of the \<^verbatim>\<open>for\<close> loop.
\<close>

definition generator_loop :: "config \<Rightarrow> (nat \<Rightarrow> real) \<Rightarrow> nat \<Rightarrow> state \<Rightarrow> state" where
  "generator_loop cfg rnd i s =
     (if i \<le> NUM_VESSEL cfg
      then (if AVERAGE_VESSEL_ARRIVAL_INTERVAL cfg = 0
            then crash Generator ZeroDivisionError (s\<lparr>gen := GCrashed\<rparr>)
            else (let delay = rnd (rng s); s1 = s\<lparr>rng := rng s + 1\<rparr> in
                  if delay < 0
                  then crash Generator ValueError (s1\<lparr>gen := GCrashed\<rparr>)
                  else schedule (Timeout Generator) NORMAL delay (s1\<lparr>gen := GAwaitTimeout i\<rparr>)))
      else finish Generator (s\<lparr>gen := GDone\<rparr>))"

definition vessel_on_the_terminal :: "config \<Rightarrow> (nat \<Rightarrow> real) \<Rightarrow> state \<Rightarrow> state" where
  "vessel_on_the_terminal cfg rnd s =
     (case gen s of
        GCreated \<Rightarrow> generator_loop cfg rnd 1 s
      | GAwaitTimeout i \<Rightarrow>
          generator_loop cfg rnd (i + 1)
            (if length (put_queue s) < NUM_BERTHS cfg then new_vessel cfg i s else s)
      | GDone \<Rightarrow> s
      | GCrashed \<Rightarrow> s)"

section \<open>The run loop\<close>

text \<open>
  Modelled from the spec: resuming a process runs it to its next suspension point
  (section 4.3).
\<close>

definition resume :: "config \<Rightarrow> (nat \<Rightarrow> real) \<Rightarrow> pid \<Rightarrow> state \<Rightarrow> state" where
  "resume cfg rnd p s =
     (case p of
        Generator \<Rightarrow> vessel_on_the_terminal cfg rnd s
      | VesselP v \<Rightarrow> arrive cfg v s
      | LoadP v \<Rightarrow> load_container cfg v s
      | TruckP k v \<Rightarrow> transport_container cfg k v s)"

text \<open>
  Modelled from the spec: what processing an event does (sections 4.1 and 4.2). A granted
  request resumes the vessel that made it; a release event grants the head of the wait
  queue; the end of a \<^verbatim>\<open>load_container\<close> process resumes the vessel awaiting it; an
  exception nobody awaits aborts the run; the horizon event stops it.
\<close>

definition process_event :: "config \<Rightarrow> (nat \<Rightarrow> real) \<Rightarrow> event \<Rightarrow> state \<Rightarrow> outcome" where
  "process_event cfg rnd ev s =
     (case ev of
        Initialize p \<Rightarrow> Continue (resume cfg rnd p s)
      | Timeout p \<Rightarrow> Continue (resume cfg rnd p s)
      | Request v \<Rightarrow> Continue (resume cfg rnd (VesselP v) s)
      | Release v \<Rightarrow> Continue (trigger_put cfg s)
      | ProcessEv p \<Rightarrow>
          (case p of LoadP v \<Rightarrow> Continue (resume cfg rnd (VesselP v) s) | _ \<Rightarrow> Continue s)
      | ProcessFail p e \<Rightarrow>
          (case p of LoadP v \<Rightarrow> Continue (arrive_throw v e s) | _ \<Rightarrow> Crashed e s)
      | Until \<Rightarrow> Stopped s)"

text \<open>
  Modelled from the spec: one turn of the run loop (section 4.1): remove the least entry,
  advance the clock to its time, process the event. An empty queue before the horizon
  event is an error of the library.
\<close>

definition step :: "config \<Rightarrow> (nat \<Rightarrow> real) \<Rightarrow> state \<Rightarrow> outcome" where
  "step cfg rnd s =
     (case heappop (queue s) of
        None \<Rightarrow> Crashed RuntimeError s
      | Some ((t, p, e, ev), q) \<Rightarrow> process_event cfg rnd ev (s\<lparr>now := t, queue := q\<rparr>))"

text \<open>
  The module level of \<^verbatim>\<open>main.py\<close> (lines 158-168): a fresh environment, the terminal
  (\<^verbatim>\<open>Terminal.__init__\<close>, lines 21-31; a resource of capacity 0 is refused), the generator
  process, and the horizon event of \<^verbatim>\<open>env.run\<close> (refused unless it lies in the future).
\<close>

definition new_env :: "config \<Rightarrow> state" where
  "new_env cfg =
     \<lparr>now = 0, eid = 0, queue = [], users = [], put_queue = [],
      quay_cranes = [1..<NUM_QUAY_CRANES cfg + 1], trucks = [1..<NUM_TRUCKS cfg + 1],
      vessels = (\<lambda>_. None), loaders = (\<lambda>_. None), truckers = (\<lambda>_. None),
      gen = GCreated, rng = 0, printed = []\<rparr>"

definition start_state :: "config \<Rightarrow> state" where
  "start_state cfg =
     schedule Until URGENT (SIMULATION_TIME cfg)
       (schedule (Initialize Generator) URGENT 0 (new_env cfg))"

definition start :: "config \<Rightarrow> error + state" where
  "start cfg =
     (if NUM_BERTHS cfg = 0 then Inl ValueError
      else if SIMULATION_TIME cfg \<le> 0 then Inl ValueError
      else Inr (start_state cfg))"

text \<open>
  The loop of \<^verbatim>\<open>env.run\<close> with a bound on the number of events processed:
  \<open>Continue s\<close> says that the run is still going, in state \<open>s\<close>, after that many events.
\<close>

fun run_loop :: "config \<Rightarrow> (nat \<Rightarrow> real) \<Rightarrow> nat \<Rightarrow> state \<Rightarrow> outcome" where
  "run_loop cfg rnd 0 s = Continue s"
| "run_loop cfg rnd (Suc n) s =
     (case step cfg rnd s of
        Continue s' \<Rightarrow> run_loop cfg rnd n s'
      | Stopped s' \<Rightarrow> Stopped s'
      | Crashed e s' \<Rightarrow> Crashed e s')"

definition program :: "config \<Rightarrow> (nat \<Rightarrow> real) \<Rightarrow> nat \<Rightarrow> outcome" where
  "program cfg rnd n =
     (case start cfg of Inl e \<Rightarrow> Crashed e (new_env cfg) | Inr s \<Rightarrow> run_loop cfg rnd n s)"

text \<open>
  The state reached from \<open>s\<close> after \<open>n\<close> more events (or fewer, when the run ends
  before).
\<close>

fun exec :: "config \<Rightarrow> (nat \<Rightarrow> real) \<Rightarrow> nat \<Rightarrow> state \<Rightarrow> state" where
  "exec cfg rnd 0 s = s"
| "exec cfg rnd (Suc n) s =
     (case step cfg rnd s of Continue s' \<Rightarrow> exec cfg rnd n s' | _ \<Rightarrow> s)"

text \<open>The states a run passes through between two events.\<close>

inductive reach :: "config \<Rightarrow> (nat \<Rightarrow> real) \<Rightarrow> state \<Rightarrow> bool" for cfg rnd where
  reach_start: "start cfg = Inr s \<Longrightarrow> reach cfg rnd s"
| reach_step: "reach cfg rnd s \<Longrightarrow> step cfg rnd s = Continue s' \<Longrightarrow> reach cfg rnd s'"


section \<open>Observations used by the properties\<close>

text \<open>The number of berth grants currently held (\<^verbatim>\<open>berths.count\<close>).\<close>

definition in_use :: "state \<Rightarrow> nat" where
  "in_use s = length (users s)"

text \<open>What a run has printed, and whether it has come to its end at the horizon.\<close>

fun observed :: "outcome \<Rightarrow> (real \<times> message) list" where
  "observed (Continue s) = printed s"
| "observed (Stopped s) = printed s"
| "observed (Crashed e s) = printed s"

fun finished :: "outcome \<Rightarrow> bool" where
  "finished (Stopped s) = True"
| "finished _ = False"

text \<open>The lines and the events of \<^verbatim>\<open>Truck.transport_container\<close> processes.\<close>

fun truck_message :: "message \<Rightarrow> bool" where
  "truck_message (TruckStarts k v) = True"
| "truck_message (TruckDelivers k v) = True"
| "truck_message _ = False"

fun truck_pid :: "pid \<Rightarrow> bool" where
  "truck_pid (TruckP k v) = True"
| "truck_pid _ = False"

fun truck_event :: "event \<Rightarrow> bool" where
  "truck_event (Initialize p) = truck_pid p"
| "truck_event (Timeout p) = truck_pid p"
| "truck_event (ProcessEv p) = truck_pid p"
| "truck_event (ProcessFail p e) = truck_pid p"
| "truck_event _ = False"

definition trucks_idle :: "state \<Rightarrow> bool" where
  "trucks_idle s \<longleftrightarrow>
     truckers s = (\<lambda>_. None) \<and>
     list_all (\<lambda>(t, p, e, ev). \<not> truck_event ev) (queue s) \<and>
     list_all (\<lambda>(t, m). \<not> truck_message m) (printed s)"


text \<open>
  The first scenario of section 8 of the specification: 1 berth, 1 crane, 1 vessel with 3
  containers, 3 time units per container; the other constants as in \<^verbatim>\<open>main.py\<close>.
\<close>

definition scenario_config :: config where
  "scenario_config =
     main_config\<lparr>NUM_BERTHS := 1, NUM_QUAY_CRANES := 1, NUM_VESSEL := 1,
       CONTAINERS_PER_VESSEL := 3, CRANE_CONTAINER_TIME := 3\<rparr>"

text \<open>
  The vessel an event belongs to: the events that resume \<^verbatim>\<open>Vessel.arrive\<close> of vessel \<open>v\<close>
  or the \<^verbatim>\<open>load_container\<close> process serving it. \<open>pending v q\<close> lists, with their times,
  the entries of the event queue that belong to \<open>v\<close>.
\<close>

fun owner :: "event \<Rightarrow> nat option" where
  "owner (Initialize (VesselP v)) = Some v"
| "owner (Initialize (LoadP v)) = Some v"
| "owner (Timeout (VesselP v)) = Some v"
| "owner (Timeout (LoadP v)) = Some v"
| "owner (Request v) = Some v"
| "owner (ProcessEv (LoadP v)) = Some v"
| "owner (ProcessFail (LoadP v) e) = Some v"
| "owner _ = None"

definition pending :: "nat \<Rightarrow> entry list \<Rightarrow> (real \<times> event) list" where
  "pending v q =
     map (\<lambda>(t, p, e, ev). (t, ev)) (filter (\<lambda>(t, p, e, ev). owner ev = Some v) q)"

text \<open>
  Reading the log: the time at which a line was first printed, and the vessels in the
  order of their arrival lines. \<^verbatim>\<open>Vessel.arrive\<close> prints the arrival line and requests the
  berth without a suspension in between, so \<open>arrivals\<close> is the order of the berth requests.
\<close>

definition time_of :: "message \<Rightarrow> (real \<times> message) list \<Rightarrow> real option" where
  "time_of m lg = map_of (map (\<lambda>(t, m'). (m', t)) lg) m"

fun arrival :: "real \<times> message \<Rightarrow> nat list" where
  "arrival (t, Arrives v) = [v]"
| "arrival _ = []"

definition arrivals :: "(real \<times> message) list \<Rightarrow> nat list" where
  "arrivals lg = concat (map arrival lg)"

definition precedes :: "'a \<Rightarrow> 'a \<Rightarrow> 'a list \<Rightarrow> bool" where
  "precedes x y xs \<longleftrightarrow> y \<in> set (tl (dropWhile (\<lambda>z. z \<noteq> x) xs))"

definition next_event :: "state \<Rightarrow> event option" where
  "next_event s = (case heappop (queue s) of None \<Rightarrow> None | Some ((t, p, e, ev), q) \<Rightarrow> Some ev)"

text \<open>
  The state of vessel \<open>v\<close> and the events \<open>pl\<close> pending for it fit together: a vessel
  that is not yet started has its start event pending; one that waits for a berth is
  either in the wait queue with nothing pending or among the users with its granted
  request pending; one that unloads is among the users, has between 0 and
  \<^verbatim>\<open>CONTAINERS_PER_VESSEL\<close> containers left and exactly one event of its current
  \<^verbatim>\<open>load_container\<close> process pending, due at the berthing time plus
  \<^verbatim>\<open>CRANE_CONTAINER_TIME\<close> for every container handled; one that has left has no container
  left, nothing pending, and its departure line carries the berthing time plus
  \<^verbatim>\<open>CONTAINERS_PER_VESSEL * CRANE_CONTAINER_TIME\<close>.
\<close>

fun vessel_fits ::
  "config \<Rightarrow> nat \<Rightarrow> int \<Rightarrow> vpc \<Rightarrow> (nat \<times> lpc) option \<Rightarrow> bool \<Rightarrow> bool \<Rightarrow> bool \<Rightarrow>
   real option \<Rightarrow> real option \<Rightarrow> (real \<times> event) list \<Rightarrow> bool" where
  "vessel_fits cfg v n VCreated ld u w a b l pl \<longleftrightarrow>
     map snd pl = [Initialize (VesselP v)] \<and> n = CONTAINERS_PER_VESSEL cfg \<and>
     \<not> u \<and> \<not> w \<and> ld = None \<and> \<not> a \<and> b = None \<and> l = None"
| "vessel_fits cfg v n VAwaitBerth ld u w a b l pl \<longleftrightarrow>
     n = CONTAINERS_PER_VESSEL cfg \<and> ld = None \<and> b = None \<and> l = None \<and>
     (if w then \<not> u \<and> pl = [] else u \<and> map snd pl = [Request v])"
| "vessel_fits cfg v n (VUnloading c) ld u w a None l pl \<longleftrightarrow> False"
| "vessel_fits cfg v n (VUnloading c) None u w a (Some tb) l pl \<longleftrightarrow>
     u \<and> \<not> w \<and> l = None \<and>
     (pl = [(tb + of_int (CONTAINERS_PER_VESSEL cfg - n) * CRANE_CONTAINER_TIME cfg,
             ProcessEv (LoadP v))] \<or>
      (CRANE_CONTAINER_TIME cfg < 0 \<and> map snd pl = [ProcessFail (LoadP v) ValueError]))"
| "vessel_fits cfg v n (VUnloading c) (Some (c', LCreated)) u w a (Some tb) l pl \<longleftrightarrow>
     u \<and> \<not> w \<and> l = None \<and> c' = c \<and> 0 < n \<and>
     pl = [(tb + of_int (CONTAINERS_PER_VESSEL cfg - n) * CRANE_CONTAINER_TIME cfg,
            Initialize (LoadP v))]"
| "vessel_fits cfg v n (VUnloading c) (Some (c', LAwaitTimeout)) u w a (Some tb) l pl \<longleftrightarrow>
     u \<and> \<not> w \<and> l = None \<and> c' = c \<and> 0 < n \<and>
     pl = [(tb + of_int (CONTAINERS_PER_VESSEL cfg - n + 1) * CRANE_CONTAINER_TIME cfg,
            Timeout (LoadP v))]"
| "vessel_fits cfg v n VGone ld u w a None l pl \<longleftrightarrow> False"
| "vessel_fits cfg v n VGone ld u w a (Some tb) l pl \<longleftrightarrow>
     pl = [] \<and> n = 0 \<and> \<not> u \<and> \<not> w \<and> ld = None \<and>
     l = Some (tb + of_int (CONTAINERS_PER_VESSEL cfg) * CRANE_CONTAINER_TIME cfg)"
| "vessel_fits cfg v n VCrashed ld u w a b l pl \<longleftrightarrow>
     pl = [] \<and> \<not> w \<and> ld = None \<and> l = None"

fun vessel_view ::
  "config \<Rightarrow> nat \<Rightarrow> vessel option \<Rightarrow> (nat \<times> lpc) option \<Rightarrow> bool \<Rightarrow> bool \<Rightarrow> bool \<Rightarrow>
   real option \<Rightarrow> real option \<Rightarrow> (real \<times> event) list \<Rightarrow> bool" where
  "vessel_view cfg v None ld u w a b l pl \<longleftrightarrow>
     pl = [] \<and> \<not> u \<and> \<not> w \<and> ld = None \<and> \<not> a \<and> b = None \<and> l = None"
| "vessel_view cfg v (Some ves) ld u w a b l pl \<longleftrightarrow>
     0 \<le> containers_left ves \<and> containers_left ves \<le> CONTAINERS_PER_VESSEL cfg \<and>
     vessel_fits cfg v (containers_left ves) (vpc ves) ld u w a b l pl"

definition vessel_st :: "config \<Rightarrow> state \<Rightarrow> nat \<Rightarrow> (real \<times> event) list \<Rightarrow> bool" where
  "vessel_st cfg s v pl =
     vessel_view cfg v (vessels s v) (loaders s v)
       (v \<in> set (users s)) (v \<in> set (put_queue s)) (v \<in> set (arrivals (printed s)))
       (time_of (Berths v) (printed s)) (time_of (Leaves v) (printed s)) pl"

text \<open>A berthed vessel that has taken a crane from the pool and not returned it.\<close>

fun holding :: "vessel option \<Rightarrow> bool" where
  "holding None = False"
| "holding (Some ves) = (case vpc ves of VUnloading c \<Rightarrow> True | VCrashed \<Rightarrow> True | _ \<Rightarrow> False)"

definition holders :: "(nat \<Rightarrow> vessel option) \<Rightarrow> nat list \<Rightarrow> nat" where
  "holders vs us = length (filter (\<lambda>v. holding (vs v)) us)"

definition cranes_ok :: "config \<Rightarrow> state \<Rightarrow> bool" where
  "cranes_ok cfg s \<longleftrightarrow>
     NUM_QUAY_CRANES cfg \<le> length (quay_cranes s) + holders (vessels s) (users s)"

text \<open>The vessels that the generator has not reached yet do not exist.\<close>

fun unborn_at :: "gpc \<Rightarrow> (nat \<Rightarrow> vessel option) \<Rightarrow> bool" where
  "unborn_at GCreated vs = (\<forall>v. vs v = None)"
| "unborn_at (GAwaitTimeout i) vs = (\<forall>v\<ge>i. vs v = None)"
| "unborn_at GDone vs = True"
| "unborn_at GCrashed vs = True"

definition unborn :: "state \<Rightarrow> bool" where
  "unborn s = unborn_at (gen s) (vessels s)"

text \<open>A release event in the queue is due at the time of the departure line.\<close>

definition releases_ok :: "state \<Rightarrow> bool" where
  "releases_ok s \<longleftrightarrow>
     (\<forall>t p e v. (t, p, e, Release v) \<in> set (queue s) \<longrightarrow>
        time_of (Leaves v) (printed s) = Some t)"

definition globals_ok :: "config \<Rightarrow> state \<Rightarrow> bool" where
  "globals_ok cfg s \<longleftrightarrow>
     distinct (users s) \<and>
     suffix (put_queue s) (arrivals (printed s)) \<and>
     distinct (arrivals (printed s)) \<and>
     cranes_ok cfg s \<and> unborn s \<and> releases_ok s \<and> truckers s = (\<lambda>_. None)"

definition terminal_ok :: "config \<Rightarrow> state \<Rightarrow> bool" where
  "terminal_ok cfg s \<longleftrightarrow>
     (\<forall>v. vessel_st cfg s v (pending v (queue s))) \<and> globals_ok cfg s"

text \<open>
  The same in the middle of a step, when the event \<open>ev\<close> of vessel \<open>v0\<close> has been taken
  from the queue and the clock is at its time.
\<close>

definition popped_ok :: "config \<Rightarrow> state \<Rightarrow> nat \<Rightarrow> event \<Rightarrow> bool" where
  "popped_ok cfg s v0 ev \<longleftrightarrow>
     (\<forall>v. v \<noteq> v0 \<longrightarrow> vessel_st cfg s v (pending v (queue s))) \<and>
     vessel_st cfg s v0 [(now s, ev)] \<and> pending v0 (queue s) = [] \<and> globals_ok cfg s"



text \<open>The constants of \<^verbatim>\<open>main.py\<close> with a single quay crane for the two berths.\<close>

definition one_crane_config :: config where
  "one_crane_config = main_config\<lparr>NUM_QUAY_CRANES := 1\<rparr>"

text \<open>
  While a run is going, the clock and every printed time are before the horizon, and
  the horizon event, the second event ever scheduled, is still in the queue.
\<close>

definition before_horizon :: "config \<Rightarrow> state \<Rightarrow> bool" where
  "before_horizon cfg s \<longleftrightarrow>
     now s < SIMULATION_TIME cfg \<and> 2 \<le> eid s \<and>
     (SIMULATION_TIME cfg, URGENT, 1, Until) \<in> set (queue s) \<and>
     (\<forall>t p e ev. (t, p, e, ev) \<in> set (queue s) \<longrightarrow> e < 2 \<longrightarrow>
        ev = Until \<or> t < SIMULATION_TIME cfg) \<and>
     (\<forall>t m. (t, m) \<in> set (printed s) \<longrightarrow> t < SIMULATION_TIME cfg)"



section \<open>Basic facts about the scheduler and the state\<close>

lemma heap_min_in: "heap_min m xs \<in> set (m # xs)"
  by (induction xs arbitrary: m) (auto split: if_splits)

lemma heappop_SomeD: "heappop q = Some (m, q') \<Longrightarrow> m \<in> set q \<and> q' = remove1 m q"
proof (cases q)
  case Nil
  assume "heappop q = Some (m, q')"
  with Nil show ?thesis by (simp add: heappop_def)
next
  case (Cons x xs)
  assume "heappop q = Some (m, q')"
  with Cons have "m = heap_min x xs" and "q' = remove1 m q"
    by (auto simp: heappop_def Let_def simp del: remove1.simps)
  with Cons heap_min_in[of x xs] show ?thesis by simp
qed

lemma schedule_fields [simp]:
  "now (schedule ev p d s) = now s"
  "eid (schedule ev p d s) = eid s + 1"
  "queue (schedule ev p d s) = queue s @ [(now s + d, p, eid s, ev)]"
  "users (schedule ev p d s) = users s"
  "put_queue (schedule ev p d s) = put_queue s"
  "quay_cranes (schedule ev p d s) = quay_cranes s"
  "trucks (schedule ev p d s) = trucks s"
  "vessels (schedule ev p d s) = vessels s"
  "loaders (schedule ev p d s) = loaders s"
  "truckers (schedule ev p d s) = truckers s"
  "gen (schedule ev p d s) = gen s"
  "rng (schedule ev p d s) = rng s"
  "printed (schedule ev p d s) = printed s"
  by (simp_all add: schedule_def)

lemma log_msg_fields [simp]:
  "now (log_msg m s) = now s"
  "eid (log_msg m s) = eid s"
  "queue (log_msg m s) = queue s"
  "users (log_msg m s) = users s"
  "put_queue (log_msg m s) = put_queue s"
  "quay_cranes (log_msg m s) = quay_cranes s"
  "trucks (log_msg m s) = trucks s"
  "vessels (log_msg m s) = vessels s"
  "loaders (log_msg m s) = loaders s"
  "truckers (log_msg m s) = truckers s"
  "gen (log_msg m s) = gen s"
  "rng (log_msg m s) = rng s"
  "printed (log_msg m s) = printed s @ [(now s, m)]"
  by (simp_all add: log_msg_def)

lemmas proc_defs = resume_def arrive_def arrive_throw_def unload_def load_container_def
  transport_container_def vessel_on_the_terminal_def generator_loop_def new_vessel_def
  request_def release_def trigger_put_def do_put_def finish_def crash_def Let_def

lemmas proc_splits = option.splits event.splits pid.splits vpc.splits lpc.splits gpc.splits
  list.splits prod.splits if_splits

lemma length_remove1_le: "length (remove1 x xs) \<le> length xs"
  by (simp add: length_remove1)

lemma step_ContinueE:
  assumes "step cfg rnd s = Continue s'"
  obtains t p e ev q where "heappop (queue s) = Some ((t, p, e, ev), q)"
    and "process_event cfg rnd ev (s\<lparr>now := t, queue := q\<rparr>) = Continue s'"
  using assms by (auto simp: step_def split: option.splits prod.splits)

lemma process_event_ContinueE:
  assumes "process_event cfg rnd ev s = Continue s'"
  obtains p where "s' = resume cfg rnd p s"
      and "ev = Initialize p \<or> ev = Timeout p \<or> (\<exists>v. ev = Request v \<and> p = VesselP v)
           \<or> (\<exists>v. ev = ProcessEv (LoadP v) \<and> p = VesselP v)"
    | v where "ev = Release v" and "s' = trigger_put cfg s"
    | p where "ev = ProcessEv p" and "\<forall>v. p \<noteq> LoadP v" and "s' = s"
    | v e where "ev = ProcessFail (LoadP v) e" and "s' = arrive_throw v e s"
  using assms by (cases ev) (auto simp: process_event_def split: pid.splits)

lemma in_use_trigger_put: "in_use s \<le> NUM_BERTHS cfg \<Longrightarrow> in_use (trigger_put cfg s) \<le> NUM_BERTHS cfg"
  by (auto simp: in_use_def trigger_put_def do_put_def split: list.splits)

lemma in_use_request: "in_use s \<le> NUM_BERTHS cfg \<Longrightarrow> in_use (request cfg v s) \<le> NUM_BERTHS cfg"
  using in_use_trigger_put[of "s\<lparr>put_queue := put_queue s @ [v]\<rparr>" cfg]
  by (simp add: request_def in_use_def)

lemma in_use_release: "in_use s \<le> NUM_BERTHS cfg \<Longrightarrow> in_use (release v s) \<le> NUM_BERTHS cfg"
  using length_remove1_le[of v "users s"] by (simp add: in_use_def release_def)

lemma remove1_bound: "length xs \<le> n \<Longrightarrow> length (remove1 x xs) \<le> n"
  using length_remove1_le[of x xs] by simp

lemma in_use_resume: "in_use s \<le> NUM_BERTHS cfg \<Longrightarrow> in_use (resume cfg rnd p s) \<le> NUM_BERTHS cfg"
  by (cases p) (auto simp: proc_defs in_use_def intro: remove1_bound split: proc_splits)

lemma in_use_arrive_throw: "in_use (arrive_throw v e s) = in_use s"
  by (auto simp: proc_defs in_use_def split: proc_splits)

lemma in_use_step:
  assumes "in_use s \<le> NUM_BERTHS cfg" and "step cfg rnd s = Continue s'"
  shows "in_use s' \<le> NUM_BERTHS cfg"
proof -
  from assms(2) obtain t p e ev q where
    pe: "process_event cfg rnd ev (s\<lparr>now := t, queue := q\<rparr>) = Continue s'"
    by (rule step_ContinueE)
  have "in_use (s\<lparr>now := t, queue := q\<rparr>) \<le> NUM_BERTHS cfg"
    using assms(1) by (simp add: in_use_def)
  with pe show ?thesis
    by (elim process_event_ContinueE) (simp_all add: in_use_resume in_use_trigger_put in_use_arrive_throw)
qed

lemma in_use_start: "start cfg = Inr s \<Longrightarrow> in_use s = 0"
  by (auto simp: start_def start_state_def new_env_def in_use_def split: if_splits)

lemma in_use_reach: "reach cfg rnd s \<Longrightarrow> in_use s \<le> NUM_BERTHS cfg"
  by (induction rule: reach.induct) (simp_all add: in_use_start in_use_step)

lemma reach_exec: "reach cfg rnd s \<Longrightarrow> reach cfg rnd (exec cfg rnd n s)"
  by (induction n arbitrary: s) (auto split: outcome.splits intro: reach_step)

lemma exec_numeral:
  "exec cfg rnd (numeral k) s =
     (case step cfg rnd s of Continue s' \<Rightarrow> exec cfg rnd (pred_numeral k) s' | _ \<Rightarrow> s)"
  by (simp add: numeral_eq_Suc)

lemma run_loop_numeral:
  "run_loop cfg rnd (numeral k) s =
     (case step cfg rnd s of
        Continue s' \<Rightarrow> run_loop cfg rnd (pred_numeral k) s'
      | Stopped s' \<Rightarrow> Stopped s'
      | Crashed e s' \<Rightarrow> Crashed e s')"
  by (simp add: numeral_eq_Suc)

lemmas sim_defs = program_def start_def step_def process_event_def heappop_def start_state_def new_env_def
  URGENT_def NORMAL_def proc_defs eval_nat_numeral exec_numeral run_loop_numeral

lemma start_main: "start main_config = Inr (start_state main_config)"
  by (simp add: start_def main_config_def)

lemma reach_main: "reach main_config rnd (exec main_config rnd n (start_state main_config))"
  by (rule reach_exec[OF reach_start[OF start_main]])

text \<open>A state property that every part of a step preserves holds throughout a run.\<close>

lemma reach_invariant:
  assumes r: "reach cfg rnd s"
    and init: "\<And>s. start cfg = Inr s \<Longrightarrow> P s"
    and pop: "\<And>s t q. P s \<Longrightarrow> set q \<subseteq> set (queue s) \<Longrightarrow> P (s\<lparr>now := t, queue := q\<rparr>)"
    and res: "\<And>s p. P s \<Longrightarrow> P (resume cfg rnd p s)"
    and trg: "\<And>s. P s \<Longrightarrow> P (trigger_put cfg s)"
    and thr: "\<And>s v e. P s \<Longrightarrow> P (arrive_throw v e s)"
  shows "P s"
  using r
proof (induction rule: reach.induct)
  case (reach_start s)
  then show ?case by (rule init)
next
  case (reach_step s s')
  from reach_step(2) obtain t p e ev q where
    hp: "heappop (queue s) = Some ((t, p, e, ev), q)" and
    pe: "process_event cfg rnd ev (s\<lparr>now := t, queue := q\<rparr>) = Continue s'"
    by (rule step_ContinueE)
  from hp have "set q \<subseteq> set (queue s)"
    using heappop_SomeD[OF hp] set_remove1_subset by fastforce
  with reach_step(3) have "P (s\<lparr>now := t, queue := q\<rparr>)"
    by (rule pop)
  with pe show ?case
    by (elim process_event_ContinueE) (simp_all add: res trg thr)
qed

lemma trucks_idle_reach: "reach cfg rnd s \<Longrightarrow> trucks_idle s"
proof (erule reach_invariant)
  fix s assume "start cfg = Inr s"
  then show "trucks_idle s"
    by (auto simp: start_def start_state_def new_env_def trucks_idle_def split: if_splits)
next
  fix s t q assume "trucks_idle s" "set q \<subseteq> set (queue s)"
  then show "trucks_idle (s\<lparr>now := t, queue := q\<rparr>)"
    by (auto simp: trucks_idle_def list_all_iff)
next
  fix s p assume "trucks_idle s"
  then show "trucks_idle (resume cfg rnd p s)"
    by (cases p) (auto simp: trucks_idle_def proc_defs split: proc_splits)
next
  fix s assume "trucks_idle s"
  then show "trucks_idle (trigger_put cfg s)"
    by (auto simp: trucks_idle_def proc_defs split: proc_splits)
next
  fix s v e assume "trucks_idle s"
  then show "trucks_idle (arrive_throw v e s)"
    by (auto simp: trucks_idle_def proc_defs split: proc_splits)
qed





section \<open>Pending events, log lookups and the popped event\<close>

lemma pending_Nil [simp]: "pending v [] = []"
  by (simp add: pending_def)

lemma pending_Cons [simp]:
  "pending v ((t, p, e, ev) # q) = (if owner ev = Some v then [(t, ev)] else []) @ pending v q"
  by (simp add: pending_def)

lemma pending_append [simp]: "pending v (q @ q') = pending v q @ pending v q'"
  by (simp add: pending_def)

lemma pending_remove1_other:
  "owner ev \<noteq> Some v \<Longrightarrow> pending v (remove1 (t, p, e, ev) q) = pending v q"
  by (induction q) (auto simp: pending_def)

lemma pending_remove1_own:
  assumes "owner ev = Some v" and "(t, p, e, ev) \<in> set q" and "length (pending v q) \<le> 1"
  shows "pending v q = [(t, ev)] \<and> pending v (remove1 (t, p, e, ev) q) = []"
  using assms
proof (induction q)
  case Nil
  then show ?case by simp
next
  case (Cons x q)
  obtain t' p' e' ev' where x: "x = (t', p', e', ev')" by (cases x) auto
  show ?case
  proof (cases "owner ev' = Some v")
    case True
    with Cons.prems(3) x have emp: "filter (\<lambda>(t, p, e, ev). owner ev = Some v) q = []"
      by (simp add: pending_def)
    then have "(t, p, e, ev) \<notin> set q"
      using assms(1) by (auto simp: filter_empty_conv)
    with Cons.prems(2) have "x = (t, p, e, ev)" by simp
    with emp True x show ?thesis by (simp add: pending_def)
  next
    case False
    with Cons.prems x assms(1) have "(t, p, e, ev) \<in> set q" "length (pending v q) \<le> 1"
      by (auto simp: pending_def)
    with Cons.IH assms(1) have "pending v q = [(t, ev)] \<and> pending v (remove1 (t, p, e, ev) q) = []"
      by simp
    with False x assms(1) show ?thesis by (auto simp: pending_def)
  qed
qed

lemma time_of_Nil [simp]: "time_of m [] = None"
  by (simp add: time_of_def)

lemma time_of_Cons [simp]:
  "time_of m ((t, m') # lg) = (if m = m' then Some t else time_of m lg)"
  by (simp add: time_of_def)

lemma time_of_append:
  "time_of m (lg @ lg') = (if time_of m lg = None then time_of m lg' else time_of m lg)"
  by (auto simp: time_of_def map_add_def split: option.splits)

lemma time_of_snoc [simp]:
  "time_of m (lg @ [(t, m')]) = (if time_of m lg = None \<and> m = m' then Some t else time_of m lg)"
  by (auto simp: time_of_append)

lemma time_of_snoc2 [simp]:
  "time_of m (lg @ [(t, m'), (t2, m2)]) =
     (if time_of m lg = None \<and> m = m' then Some t
      else if time_of m lg = None \<and> m = m2 then Some t2 else time_of m lg)"
  by (auto simp: time_of_append)

lemma arrivals_Nil [simp]: "arrivals [] = []"
  by (simp add: arrivals_def)

lemma arrivals_Cons [simp]: "arrivals (x # lg) = arrival x @ arrivals lg"
  by (simp add: arrivals_def)

lemma arrivals_append [simp]: "arrivals (lg @ lg') = arrivals lg @ arrivals lg'"
  by (simp add: arrivals_def)

lemma vessel_fits_length: "vessel_fits cfg v n pc ld u w a b l pl \<Longrightarrow> length pl \<le> 1"
  by (induction cfg v n pc ld u w a b l pl rule: vessel_fits.induct)
     (auto split: if_splits dest: arg_cong[where f = length])

lemma vessel_st_length: "vessel_st cfg s v pl \<Longrightarrow> length pl \<le> 1"
  by (cases "vessels s v") (auto simp: vessel_st_def dest: vessel_fits_length)


lemma vessel_st_pop [simp]: "vessel_st cfg (s\<lparr>now := t, queue := q\<rparr>) v pl = vessel_st cfg s v pl"
  by (simp add: vessel_st_def)

lemma globals_ok_pop:
  "globals_ok cfg s \<Longrightarrow> set q \<subseteq> set (queue s) \<Longrightarrow> globals_ok cfg (s\<lparr>now := t, queue := q\<rparr>)"
  by (auto simp: globals_ok_def cranes_ok_def unborn_def releases_ok_def)

lemma pop_none:
  assumes "terminal_ok cfg s" and "heappop (queue s) = Some ((t, p, e, ev), q)" and "owner ev = None"
  shows "terminal_ok cfg (s\<lparr>now := t, queue := q\<rparr>)"
proof -
  from heappop_SomeD[OF assms(2)] have q: "q = remove1 (t, p, e, ev) (queue s)" and "set q \<subseteq> set (queue s)"
    using set_remove1_subset by fastforce+
  with assms(1) have "globals_ok cfg (s\<lparr>now := t, queue := q\<rparr>)"
    by (simp add: terminal_ok_def globals_ok_pop)
  moreover have "pending v q = pending v (queue s)" for v
    using assms(3) q by (simp add: pending_remove1_other)
  ultimately show ?thesis
    using assms(1) by (simp add: terminal_ok_def)
qed

lemma pop_some:
  assumes "terminal_ok cfg s" and "heappop (queue s) = Some ((t, p, e, ev), q)" and "owner ev = Some v0"
  shows "popped_ok cfg (s\<lparr>now := t, queue := q\<rparr>) v0 ev"
proof -
  from heappop_SomeD[OF assms(2)] have q: "q = remove1 (t, p, e, ev) (queue s)"
    and m: "(t, p, e, ev) \<in> set (queue s)" and "set q \<subseteq> set (queue s)"
    using set_remove1_subset by fastforce+
  with assms(1) have "globals_ok cfg (s\<lparr>now := t, queue := q\<rparr>)"
    by (simp add: terminal_ok_def globals_ok_pop)
  moreover have "pending v q = pending v (queue s)" if "v \<noteq> v0" for v
    using assms(3) q that by (simp add: pending_remove1_other)
  moreover have "vessel_st cfg s v0 (pending v0 (queue s))"
    using assms(1) by (simp add: terminal_ok_def)
  moreover from this have "pending v0 (queue s) = [(t, ev)] \<and> pending v0 q = []"
    unfolding q by (intro pending_remove1_own[OF assms(3) m] vessel_st_length)
  ultimately show ?thesis
    using assms(1) by (simp add: terminal_ok_def popped_ok_def)
qed

section \<open>What a pending event says about its vessel\<close>

lemma vessel_st_InitLoad:
  assumes "vessel_st cfg s v [(t, Initialize (LoadP v))]"
  obtains ves c tb where "vessels s v = Some ves" "vpc ves = VUnloading c"
    "loaders s v = Some (c, LCreated)" "time_of (Berths v) (printed s) = Some tb"
    "t = tb + of_int (CONTAINERS_PER_VESSEL cfg - containers_left ves) * CRANE_CONTAINER_TIME cfg"
    "0 < containers_left ves" "containers_left ves \<le> CONTAINERS_PER_VESSEL cfg"
    "v \<in> set (users s)" "v \<notin> set (put_queue s)" "time_of (Leaves v) (printed s) = None"
  using assms
  by (auto simp: vessel_st_def elim!: vessel_view.elims(2) vessel_fits.elims(2) split: if_splits)

lemma vessel_st_TimeoutLoad:
  assumes "vessel_st cfg s v [(t, Timeout (LoadP v))]"
  obtains ves c tb where "vessels s v = Some ves" "vpc ves = VUnloading c"
    "loaders s v = Some (c, LAwaitTimeout)" "time_of (Berths v) (printed s) = Some tb"
    "t = tb + of_int (CONTAINERS_PER_VESSEL cfg - containers_left ves + 1) * CRANE_CONTAINER_TIME cfg"
    "0 < containers_left ves" "containers_left ves \<le> CONTAINERS_PER_VESSEL cfg"
    "v \<in> set (users s)" "v \<notin> set (put_queue s)" "time_of (Leaves v) (printed s) = None"
  using assms
  by (auto simp: vessel_st_def elim!: vessel_view.elims(2) vessel_fits.elims(2) split: if_splits)

lemma vessel_st_ProcessLoad:
  assumes "vessel_st cfg s v [(t, ProcessEv (LoadP v))]"
  obtains ves c tb where "vessels s v = Some ves" "vpc ves = VUnloading c"
    "loaders s v = None" "time_of (Berths v) (printed s) = Some tb"
    "t = tb + of_int (CONTAINERS_PER_VESSEL cfg - containers_left ves) * CRANE_CONTAINER_TIME cfg"
    "0 \<le> containers_left ves" "containers_left ves \<le> CONTAINERS_PER_VESSEL cfg"
    "v \<in> set (users s)" "v \<notin> set (put_queue s)" "time_of (Leaves v) (printed s) = None"
  using assms
  by (auto simp: vessel_st_def elim!: vessel_view.elims(2) vessel_fits.elims(2) split: if_splits)

lemma vessel_st_FailLoad:
  assumes "vessel_st cfg s v [(t, ProcessFail (LoadP v) e)]"
  obtains ves c where "vessels s v = Some ves" "vpc ves = VUnloading c"
    "loaders s v = None" "v \<notin> set (put_queue s)" "time_of (Leaves v) (printed s) = None"
    "0 \<le> containers_left ves" "containers_left ves \<le> CONTAINERS_PER_VESSEL cfg"
  using assms
  by (auto simp: vessel_st_def elim!: vessel_view.elims(2) vessel_fits.elims(2) split: if_splits)

lemma vessel_st_Request:
  assumes "vessel_st cfg s v [(t, Request v)]"
  obtains ves where "vessels s v = Some ves" "vpc ves = VAwaitBerth"
    "loaders s v = None" "time_of (Berths v) (printed s) = None"
    "containers_left ves = CONTAINERS_PER_VESSEL cfg" "0 \<le> CONTAINERS_PER_VESSEL cfg"
    "v \<in> set (users s)" "v \<notin> set (put_queue s)" "time_of (Leaves v) (printed s) = None"
  using assms
  by (auto simp: vessel_st_def elim!: vessel_view.elims(2) vessel_fits.elims(2) split: if_splits)

lemma vessel_st_InitVessel:
  assumes "vessel_st cfg s v [(t, Initialize (VesselP v))]"
  obtains ves where "vessels s v = Some ves" "vpc ves = VCreated"
    "loaders s v = None" "time_of (Berths v) (printed s) = None"
    "containers_left ves = CONTAINERS_PER_VESSEL cfg" "0 \<le> CONTAINERS_PER_VESSEL cfg"
    "v \<notin> set (users s)" "v \<notin> set (put_queue s)" "time_of (Leaves v) (printed s) = None"
    "v \<notin> set (arrivals (printed s))"
  using assms
  by (auto simp: vessel_st_def elim!: vessel_view.elims(2) vessel_fits.elims(2) split: if_splits)

lemma vessel_st_TimeoutVessel: "\<not> vessel_st cfg s v [(t, Timeout (VesselP v))]"
  by (auto simp: vessel_st_def elim!: vessel_view.elims(2) vessel_fits.elims(2) split: if_splits)

lemma vessel_st_frame:
  assumes "vessels s' v = vessels s v" "loaders s' v = loaders s v"
    "(v \<in> set (users s')) = (v \<in> set (users s))"
    "(v \<in> set (put_queue s')) = (v \<in> set (put_queue s))"
    "(v \<in> set (arrivals (printed s'))) = (v \<in> set (arrivals (printed s)))"
    "time_of (Berths v) (printed s') = time_of (Berths v) (printed s)"
    "time_of (Leaves v) (printed s') = time_of (Leaves v) (printed s)"
  shows "vessel_st cfg s' v pl = vessel_st cfg s v pl"
  by (simp add: vessel_st_def assms)


lemma unborn_at_upd: "unborn_at g vs \<Longrightarrow> vs v0 = Some y \<Longrightarrow> unborn_at g (vs(v0 \<mapsto> x))"
  by (cases g) auto

lemma filter_mono_at:
  assumes "\<And>u. u \<in> set us \<Longrightarrow> u \<noteq> v0 \<Longrightarrow> Q u = P u" and "P v0 \<Longrightarrow> Q v0"
  shows "length (filter P us) \<le> length (filter Q us)"
  using assms by (induction us) (auto split: if_splits)

lemma filter_gain_at:
  assumes "\<And>u. u \<in> set us \<Longrightarrow> u \<noteq> v0 \<Longrightarrow> Q u = P u" and "\<not> P v0" and "Q v0" and "v0 \<in> set us"
  shows "length (filter P us) + 1 \<le> length (filter Q us)"
  using assms
proof (induction us)
  case Nil
  then show ?case by simp
next
  case (Cons u us)
  show ?case
  proof (cases "u = v0")
    case True
    have "length (filter P us) \<le> length (filter Q us)"
      using Cons.prems by (intro filter_mono_at[where ?v0.0 = v0]) auto
    with True Cons.prems show ?thesis by simp
  next
    case False
    with Cons show ?thesis by auto
  qed
qed

lemma filter_lose_at:
  assumes "distinct us" and "\<And>u. u \<in> set us \<Longrightarrow> u \<noteq> v0 \<Longrightarrow> Q u = P u"
  shows "length (filter P us) \<le> length (filter Q (remove1 v0 us)) + 1"
  using assms
proof (induction us)
  case Nil
  then show ?case by simp
next
  case (Cons u us)
  show ?case
  proof (cases "u = v0")
    case True
    with Cons.prems have "v0 \<notin> set us" by simp
    then have "filter P us = filter Q us"
      using Cons.prems(2) by (intro filter_cong) auto
    with True show ?thesis by simp
  next
    case False
    with Cons show ?thesis by auto
  qed
qed


lemma holders_upd_same:
  "vs v0 = Some ves \<Longrightarrow> holding (Some ves') = holding (Some ves) \<Longrightarrow>
   holders (vs(v0 \<mapsto> ves')) us = holders vs us"
  unfolding holders_def by (rule arg_cong[where f = length], rule filter_cong) auto

lemma holders_upd_notin: "v0 \<notin> set us \<Longrightarrow> holders (vs(v0 := x)) us = holders vs us"
  unfolding holders_def by (rule arg_cong[where f = length], rule filter_cong) auto

lemma holders_upd_mono:
  "(holding (vs v0) \<Longrightarrow> holding x) \<Longrightarrow> holders vs us \<le> holders (vs(v0 := x)) us"
  unfolding holders_def by (rule filter_mono_at[where ?v0.0 = v0]) auto

lemma holders_upd_gain:
  "\<not> holding (vs v0) \<Longrightarrow> holding x \<Longrightarrow> v0 \<in> set us \<Longrightarrow>
   holders vs us + 1 \<le> holders (vs(v0 := x)) us"
  unfolding holders_def by (rule filter_gain_at[where ?v0.0 = v0]) auto

lemma holders_append:
  "holders vs (us @ [h]) = holders vs us + (if holding (vs h) then 1 else 0)"
  by (simp add: holders_def)

lemma holders_remove:
  "distinct us \<Longrightarrow> holders vs us \<le> holders (vs(v0 := x)) (remove1 v0 us) + 1"
  unfolding holders_def by (rule filter_lose_at) auto

section \<open>Every step keeps the terminal consistent\<close>

lemma terminal_okI:
  assumes "vessel_st cfg s v0 (pending v0 (queue s))"
    and "\<And>v. v \<noteq> v0 \<Longrightarrow> vessel_st cfg s v (pending v (queue s))"
    and "globals_ok cfg s"
  shows "terminal_ok cfg s"
  unfolding terminal_ok_def using assms by (metis (full_types))

lemma load_start_ok:
  assumes "popped_ok cfg s v0 (Initialize (LoadP v0))"
  shows "terminal_ok cfg (load_container cfg v0 s)"
proof -
  from assms have st: "vessel_st cfg s v0 [(now s, Initialize (LoadP v0))]"
    and oth: "\<And>v. v \<noteq> v0 \<Longrightarrow> vessel_st cfg s v (pending v (queue s))"
    and pe: "pending v0 (queue s) = []" and g: "globals_ok cfg s"
    by (simp_all add: popped_ok_def)
  from st obtain ves c tb where f: "vessels s v0 = Some ves" "vpc ves = VUnloading c"
    "loaders s v0 = Some (c, LCreated)" "time_of (Berths v0) (printed s) = Some tb"
    "now s = tb + of_int (CONTAINERS_PER_VESSEL cfg - containers_left ves) * CRANE_CONTAINER_TIME cfg"
    "0 < containers_left ves" "containers_left ves \<le> CONTAINERS_PER_VESSEL cfg"
    "v0 \<in> set (users s)" "v0 \<notin> set (put_queue s)" "time_of (Leaves v0) (printed s) = None"
    by (rule vessel_st_InitLoad)
  let ?s' = "load_container cfg v0 s"
  have own: "vessel_st cfg ?s' v0 (pending v0 (queue ?s'))"
    using f pe by (simp add: load_container_def crash_def Let_def vessel_st_def algebra_simps)
  have other: "vessel_st cfg ?s' v (pending v (queue ?s'))" if "v \<noteq> v0" for v
    using oth[OF that] that f
    by (simp add: load_container_def crash_def Let_def vessel_st_def)
  have "globals_ok cfg ?s'"
    using g f
    by (auto simp: load_container_def crash_def Let_def globals_ok_def cranes_ok_def unborn_def
        releases_ok_def split: option.splits)
  with own other show ?thesis
    by (rule terminal_okI)
qed

lemma load_finish_ok:
  assumes "popped_ok cfg s v0 (Timeout (LoadP v0))"
  shows "terminal_ok cfg (load_container cfg v0 s)"
proof -
  from assms have st: "vessel_st cfg s v0 [(now s, Timeout (LoadP v0))]"
    and oth: "\<And>v. v \<noteq> v0 \<Longrightarrow> vessel_st cfg s v (pending v (queue s))"
    and pe: "pending v0 (queue s) = []" and g: "globals_ok cfg s"
    by (simp_all add: popped_ok_def)
  from st obtain ves c tb where f: "vessels s v0 = Some ves" "vpc ves = VUnloading c"
    "loaders s v0 = Some (c, LAwaitTimeout)" "time_of (Berths v0) (printed s) = Some tb"
    "now s = tb + of_int (CONTAINERS_PER_VESSEL cfg - containers_left ves + 1) * CRANE_CONTAINER_TIME cfg"
    "0 < containers_left ves" "containers_left ves \<le> CONTAINERS_PER_VESSEL cfg"
    "v0 \<in> set (users s)" "v0 \<notin> set (put_queue s)" "time_of (Leaves v0) (printed s) = None"
    by (rule vessel_st_TimeoutLoad)
  let ?s' = "load_container cfg v0 s"
  have own: "vessel_st cfg ?s' v0 (pending v0 (queue ?s'))"
    using f pe by (simp add: load_container_def finish_def Let_def vessel_st_def algebra_simps)
  have other: "vessel_st cfg ?s' v (pending v (queue ?s'))" if "v \<noteq> v0" for v
    using oth[OF that] that f
    by (simp add: load_container_def finish_def Let_def vessel_st_def)
  have "globals_ok cfg ?s'"
    using g f
    by (auto simp: load_container_def finish_def Let_def globals_ok_def cranes_ok_def unborn_def
        releases_ok_def holders_upd_same unborn_at_upd)
  with own other show ?thesis
    by (rule terminal_okI)
qed

lemma holders_remove_not: "\<not> holding (vs v0) \<Longrightarrow> holders vs (remove1 v0 us) = holders vs us"
  unfolding holders_def by (induction us) auto

lemma arrive_next_ok:
  assumes "popped_ok cfg s v0 (ProcessEv (LoadP v0))"
  shows "terminal_ok cfg (arrive cfg v0 s)"
proof -
  from assms have st: "vessel_st cfg s v0 [(now s, ProcessEv (LoadP v0))]"
    and oth: "\<And>v. v \<noteq> v0 \<Longrightarrow> vessel_st cfg s v (pending v (queue s))"
    and pe: "pending v0 (queue s) = []" and g: "globals_ok cfg s"
    by (simp_all add: popped_ok_def)
  from st obtain ves c tb where f: "vessels s v0 = Some ves" "vpc ves = VUnloading c"
    "loaders s v0 = None" "time_of (Berths v0) (printed s) = Some tb"
    "now s = tb + of_int (CONTAINERS_PER_VESSEL cfg - containers_left ves) * CRANE_CONTAINER_TIME cfg"
    "0 \<le> containers_left ves" "containers_left ves \<le> CONTAINERS_PER_VESSEL cfg"
    "v0 \<in> set (users s)" "v0 \<notin> set (put_queue s)" "time_of (Leaves v0) (printed s) = None"
    by (rule vessel_st_ProcessLoad)
  let ?s' = "arrive cfg v0 s"
  from g have d: "distinct (users s)" by (simp add: globals_ok_def)
  have own: "vessel_st cfg ?s' v0 (pending v0 (queue ?s'))"
    using f pe d
    by (auto simp: arrive_def unload_def release_def finish_def vessel_st_def algebra_simps)
  have other: "vessel_st cfg ?s' v (pending v (queue ?s'))" if "v \<noteq> v0" for v
    using oth[OF that] that f
    by (auto simp: arrive_def unload_def release_def finish_def vessel_st_def)
  have "globals_ok cfg ?s'"
  proof (cases "0 < containers_left ves")
    case True
    with g f show ?thesis
      by (auto simp: arrive_def unload_def globals_ok_def cranes_ok_def unborn_def
        releases_ok_def holders_upd_same unborn_at_upd)
  next
    case False
    have "holders (vessels s) (users s) \<le>
          holders ((vessels s)(v0 \<mapsto> ves\<lparr>vpc := VGone\<rparr>)) (remove1 v0 (users s)) + 1"
      using d by (rule holders_remove)
    with False g f show ?thesis
      by (auto simp: arrive_def unload_def release_def finish_def globals_ok_def cranes_ok_def
          unborn_def releases_ok_def unborn_at_upd)
  qed
  with own other show ?thesis
    by (rule terminal_okI)
qed

lemma arrive_berth_ok:
  assumes "popped_ok cfg s v0 (Request v0)"
  shows "terminal_ok cfg (arrive cfg v0 s)"
proof -
  from assms have st: "vessel_st cfg s v0 [(now s, Request v0)]"
    and oth: "\<And>v. v \<noteq> v0 \<Longrightarrow> vessel_st cfg s v (pending v (queue s))"
    and pe: "pending v0 (queue s) = []" and g: "globals_ok cfg s"
    by (simp_all add: popped_ok_def)
  from st obtain ves where f: "vessels s v0 = Some ves" "vpc ves = VAwaitBerth"
    "loaders s v0 = None" "time_of (Berths v0) (printed s) = None"
    "containers_left ves = CONTAINERS_PER_VESSEL cfg" "0 \<le> CONTAINERS_PER_VESSEL cfg"
    "v0 \<in> set (users s)" "v0 \<notin> set (put_queue s)" "time_of (Leaves v0) (printed s) = None"
    by (rule vessel_st_Request)
  let ?s' = "arrive cfg v0 s"
  from g have d: "distinct (users s)" by (simp add: globals_ok_def)
  have own: "vessel_st cfg ?s' v0 (pending v0 (queue ?s'))"
    using f pe d
    by (auto simp: arrive_def unload_def release_def finish_def crash_def Let_def vessel_st_def
        algebra_simps split: list.splits)
  have other: "vessel_st cfg ?s' v (pending v (queue ?s'))" if "v \<noteq> v0" for v
    using oth[OF that] that f
    by (auto simp: arrive_def unload_def release_def finish_def crash_def Let_def vessel_st_def
        split: list.splits)
  have h0: "\<not> holding (vessels s v0)"
    using f by simp
  have "globals_ok cfg ?s'"
  proof (cases "quay_cranes s")
    case Nil
    have "holders (vessels s) (users s) \<le> holders ((vessels s)(v0 \<mapsto> ves\<lparr>vpc := VCrashed\<rparr>)) (users s)"
      by (rule holders_upd_mono) simp
    with Nil g f show ?thesis
      by (auto simp: arrive_def crash_def Let_def globals_ok_def cranes_ok_def
          unborn_def releases_ok_def unborn_at_upd)
  next
    case (Cons c rest)
    show ?thesis
    proof (cases "0 < containers_left ves")
      case True
      have "holders (vessels s) (users s) + 1 \<le>
            holders ((vessels s)(v0 \<mapsto> ves\<lparr>vpc := VUnloading c\<rparr>)) (users s)"
        using h0 f(7) by (intro holders_upd_gain) simp_all
      with True Cons g f show ?thesis
        by (auto simp: arrive_def unload_def Let_def globals_ok_def cranes_ok_def unborn_def
            releases_ok_def unborn_at_upd)
    next
      case False
      have "holders ((vessels s)(v0 \<mapsto> ves\<lparr>vpc := VGone\<rparr>)) (remove1 v0 (users s)) =
            holders (vessels s) (users s)"
        using f by (simp add: holders_remove_not holders_upd_same)
      with False Cons g f show ?thesis
        by (auto simp: arrive_def unload_def release_def finish_def Let_def globals_ok_def
            cranes_ok_def unborn_def releases_ok_def unborn_at_upd)
    qed
  qed
  with own other show ?thesis
    by (rule terminal_okI)
qed

lemma arrive_throw_ok:
  assumes "popped_ok cfg s v0 (ProcessFail (LoadP v0) e)"
  shows "terminal_ok cfg (arrive_throw v0 e s)"
proof -
  from assms have st: "vessel_st cfg s v0 [(now s, ProcessFail (LoadP v0) e)]"
    and oth: "\<And>v. v \<noteq> v0 \<Longrightarrow> vessel_st cfg s v (pending v (queue s))"
    and pe: "pending v0 (queue s) = []" and g: "globals_ok cfg s"
    by (simp_all add: popped_ok_def)
  from st obtain ves c where f: "vessels s v0 = Some ves" "vpc ves = VUnloading c"
    "loaders s v0 = None" "v0 \<notin> set (put_queue s)" "time_of (Leaves v0) (printed s) = None"
    "0 \<le> containers_left ves" "containers_left ves \<le> CONTAINERS_PER_VESSEL cfg"
    by (rule vessel_st_FailLoad)
  let ?s' = "arrive_throw v0 e s"
  have own: "vessel_st cfg ?s' v0 (pending v0 (queue ?s'))"
    using f pe by (auto simp: arrive_throw_def crash_def vessel_st_def)
  have other: "vessel_st cfg ?s' v (pending v (queue ?s'))" if "v \<noteq> v0" for v
    using oth[OF that] that f by (auto simp: arrive_throw_def crash_def vessel_st_def)
  have "holders ((vessels s)(v0 \<mapsto> ves\<lparr>vpc := VCrashed\<rparr>)) (users s) = holders (vessels s) (users s)"
    using f by (simp add: holders_upd_same)
  with g f have "globals_ok cfg ?s'"
    by (auto simp: arrive_throw_def crash_def globals_ok_def cranes_ok_def unborn_def
        releases_ok_def unborn_at_upd)
  with own other show ?thesis
    by (rule terminal_okI)
qed

lemma vessel_st_queued:
  assumes "vessel_st cfg s v pl" and "v \<in> set (put_queue s)"
  obtains ves where "vessels s v = Some ves" "vpc ves = VAwaitBerth" "pl = []"
    "loaders s v = None" "time_of (Berths v) (printed s) = None"
    "containers_left ves = CONTAINERS_PER_VESSEL cfg" "0 \<le> CONTAINERS_PER_VESSEL cfg"
    "v \<notin> set (users s)" "time_of (Leaves v) (printed s) = None"
  using assms
  by (auto simp: vessel_st_def elim!: vessel_view.elims(2) vessel_fits.elims(2) split: if_splits)

lemma trigger_put_ok:
  assumes "terminal_ok cfg s"
  shows "terminal_ok cfg (trigger_put cfg s)"
proof (cases "put_queue s")
  case Nil
  with assms show ?thesis by (simp add: trigger_put_def)
next
  case (Cons h rest)
  show ?thesis
  proof (cases "length (users s) < NUM_BERTHS cfg")
    case False
    with Cons assms show ?thesis by (simp add: trigger_put_def do_put_def)
  next
    case True
    from assms have all: "\<And>v. vessel_st cfg s v (pending v (queue s))" and g: "globals_ok cfg s"
      by (simp_all add: terminal_ok_def)
    from g Cons have "distinct (h # rest)"
      by (metis globals_ok_def suffix_def distinct_append)
    then have hr: "h \<notin> set rest" by simp
    have "h \<in> set (put_queue s)" using Cons by simp
    with all[of h] obtain ves where f: "vessels s h = Some ves" "vpc ves = VAwaitBerth"
      "pending h (queue s) = []" "loaders s h = None" "time_of (Berths h) (printed s) = None"
      "containers_left ves = CONTAINERS_PER_VESSEL cfg" "0 \<le> CONTAINERS_PER_VESSEL cfg"
      "h \<notin> set (users s)" "time_of (Leaves h) (printed s) = None"
      by (rule vessel_st_queued)
    let ?s' = "trigger_put cfg s"
    have s': "?s' = (schedule (Request h) NORMAL 0 (s\<lparr>users := users s @ [h]\<rparr>))\<lparr>put_queue := rest\<rparr>"
      using Cons True by (simp add: trigger_put_def do_put_def)
    have own: "vessel_st cfg ?s' h (pending h (queue ?s'))"
      unfolding s' using f hr by (simp add: vessel_st_def)
    have other: "vessel_st cfg ?s' v (pending v (queue ?s'))" if "v \<noteq> h" for v
      unfolding s' using all[of v] that Cons by (simp add: vessel_st_def)
    have "suffix rest (arrivals (printed s))"
      using g Cons by (metis globals_ok_def suffix_ConsD)
    moreover have "\<not> holding (vessels s h)" using f by simp
    ultimately have "globals_ok cfg ?s'"
      unfolding s' using g f
      by (auto simp: globals_ok_def cranes_ok_def unborn_def releases_ok_def holders_append)
    with own other show ?thesis
      by (rule terminal_okI)
  qed
qed

lemma arrive_start_ok:
  assumes "popped_ok cfg s v0 (Initialize (VesselP v0))"
  shows "terminal_ok cfg (arrive cfg v0 s)"
proof -
  from assms have st: "vessel_st cfg s v0 [(now s, Initialize (VesselP v0))]"
    and oth: "\<And>v. v \<noteq> v0 \<Longrightarrow> vessel_st cfg s v (pending v (queue s))"
    and pe: "pending v0 (queue s) = []" and g: "globals_ok cfg s"
    by (simp_all add: popped_ok_def)
  from st obtain ves where f: "vessels s v0 = Some ves" "vpc ves = VCreated"
    "loaders s v0 = None" "time_of (Berths v0) (printed s) = None"
    "containers_left ves = CONTAINERS_PER_VESSEL cfg" "0 \<le> CONTAINERS_PER_VESSEL cfg"
    "v0 \<notin> set (users s)" "v0 \<notin> set (put_queue s)" "time_of (Leaves v0) (printed s) = None"
    "v0 \<notin> set (arrivals (printed s))"
    by (rule vessel_st_InitVessel)
  define sm where "sm = (log_msg (Arrives v0) s)
     \<lparr>vessels := (vessels s)(v0 \<mapsto> ves\<lparr>vpc := VAwaitBerth\<rparr>), put_queue := put_queue s @ [v0]\<rparr>"
  have a: "arrive cfg v0 s = trigger_put cfg sm"
    using f by (simp add: arrive_def request_def sm_def)
  have own: "vessel_st cfg sm v0 (pending v0 (queue sm))"
    using f pe by (simp add: sm_def vessel_st_def)
  have other: "vessel_st cfg sm v (pending v (queue sm))" if "v \<noteq> v0" for v
    using oth[OF that] that by (simp add: sm_def vessel_st_def)
  have "holders ((vessels s)(v0 \<mapsto> ves\<lparr>vpc := VAwaitBerth\<rparr>)) (users s) = holders (vessels s) (users s)"
    using f by (simp add: holders_upd_same)
  with g f have "globals_ok cfg sm"
    by (auto simp: sm_def globals_ok_def cranes_ok_def unborn_def releases_ok_def unborn_at_upd)
  with own other have "terminal_ok cfg sm"
    by (rule terminal_okI)
  then show ?thesis
    unfolding a by (rule trigger_put_ok)
qed

lemma vessel_st_gen [simp]: "vessel_st cfg (s\<lparr>gen := g\<rparr>) v pl = vessel_st cfg s v pl"
  by (simp add: vessel_st_def)

lemma generator_loop_gen: "generator_loop cfg rnd i (s\<lparr>gen := g\<rparr>) = generator_loop cfg rnd i s"
  by (simp add: generator_loop_def schedule_def finish_def crash_def Let_def)

lemma generator_loop_ok:
  assumes "terminal_ok cfg (s\<lparr>gen := GAwaitTimeout i\<rparr>)"
  shows "terminal_ok cfg (generator_loop cfg rnd i s)"
proof -
  from assms have all: "\<And>v. vessel_st cfg s v (pending v (queue s))"
    and g: "globals_ok cfg (s\<lparr>gen := GAwaitTimeout i\<rparr>)"
    by (simp_all add: terminal_ok_def)
  let ?s' = "generator_loop cfg rnd i s"
  have "vessel_st cfg ?s' v (pending v (queue ?s'))" for v
    using all[of v]
    by (simp add: generator_loop_def finish_def crash_def Let_def vessel_st_def)
  moreover have "globals_ok cfg ?s'"
    using g
    by (auto simp: generator_loop_def finish_def crash_def Let_def globals_ok_def cranes_ok_def
        unborn_def releases_ok_def)
  ultimately show ?thesis
    by (simp add: terminal_ok_def)
qed

lemma vessel_st_absent:
  assumes "vessel_st cfg s v pl" and "vessels s v = None"
  shows "pl = [] \<and> v \<notin> set (users s) \<and> v \<notin> set (put_queue s) \<and> loaders s v = None \<and>
         v \<notin> set (arrivals (printed s)) \<and> time_of (Berths v) (printed s) = None \<and>
         time_of (Leaves v) (printed s) = None"
  using assms by (simp add: vessel_st_def)

lemma new_vessel_ok:
  assumes "terminal_ok cfg s" and "gen s = GAwaitTimeout i" and "0 \<le> CONTAINERS_PER_VESSEL cfg"
  shows "terminal_ok cfg ((new_vessel cfg i s)\<lparr>gen := GAwaitTimeout (i + 1)\<rparr>)"
proof -
  from assms have all: "\<And>v. vessel_st cfg s v (pending v (queue s))" and g: "globals_ok cfg s"
    by (simp_all add: terminal_ok_def)
  from g assms(2) have n: "vessels s i = None"
    by (simp add: globals_ok_def unborn_def)
  note a = vessel_st_absent[OF all[of i] n]
  let ?s' = "(new_vessel cfg i s)\<lparr>gen := GAwaitTimeout (i + 1)\<rparr>"
  have own: "vessel_st cfg ?s' i (pending i (queue ?s'))"
    using a assms(3) by (simp add: new_vessel_def vessel_st_def)
  have other: "vessel_st cfg ?s' v (pending v (queue ?s'))" if "v \<noteq> i" for v
    using all[of v] that by (simp add: new_vessel_def vessel_st_def)
  have "holders ((vessels s)(i \<mapsto> \<lparr>containers_left = CONTAINERS_PER_VESSEL cfg, vpc = VCreated\<rparr>)) (users s)
        = holders (vessels s) (users s)"
    using a by (simp add: holders_upd_notin)
  with g assms(2) have "globals_ok cfg ?s'"
    by (auto simp: new_vessel_def globals_ok_def cranes_ok_def unborn_def releases_ok_def)
  with own other show ?thesis
    by (rule terminal_okI)
qed

lemma skip_vessel_ok:
  assumes "terminal_ok cfg s" and "gen s = GAwaitTimeout i"
  shows "terminal_ok cfg (s\<lparr>gen := GAwaitTimeout (i + 1)\<rparr>)"
  using assms
  by (auto simp: terminal_ok_def globals_ok_def cranes_ok_def unborn_def releases_ok_def)

lemma generator_step_ok:
  assumes "terminal_ok cfg s" and "0 \<le> CONTAINERS_PER_VESSEL cfg"
  shows "terminal_ok cfg (vessel_on_the_terminal cfg rnd s)"
proof (cases "gen s")
  case GCreated
  with assms(1) have "terminal_ok cfg (s\<lparr>gen := GAwaitTimeout 1\<rparr>)"
    by (auto simp: terminal_ok_def globals_ok_def cranes_ok_def unborn_def releases_ok_def)
  with GCreated show ?thesis
    by (simp add: vessel_on_the_terminal_def generator_loop_ok)
next
  case (GAwaitTimeout i)
  show ?thesis
  proof (cases "length (put_queue s) < NUM_BERTHS cfg")
    case True
    have "terminal_ok cfg (generator_loop cfg rnd (i + 1) (new_vessel cfg i s))"
      using new_vessel_ok[OF assms(1) GAwaitTimeout assms(2)] by (rule generator_loop_ok)
    with GAwaitTimeout True show ?thesis
      by (simp add: vessel_on_the_terminal_def)
  next
    case False
    have "terminal_ok cfg (generator_loop cfg rnd (i + 1) s)"
      using skip_vessel_ok[OF assms(1) GAwaitTimeout] by (rule generator_loop_ok)
    with GAwaitTimeout False show ?thesis
      by (simp add: vessel_on_the_terminal_def)
  qed
next
  case GDone
  with assms(1) show ?thesis by (simp add: vessel_on_the_terminal_def)
next
  case GCrashed
  with assms(1) show ?thesis by (simp add: vessel_on_the_terminal_def)
qed

lemma transport_idle: "truckers s = (\<lambda>_. None) \<Longrightarrow> transport_container cfg k v s = s"
  by (simp add: transport_container_def)

lemma popped_ok_TimeoutVessel: "\<not> popped_ok cfg s v (Timeout (VesselP v))"
  by (simp add: popped_ok_def vessel_st_TimeoutVessel)

lemma terminal_ok_step:
  assumes ok: "terminal_ok cfg s" and c: "0 \<le> CONTAINERS_PER_VESSEL cfg"
    and st: "step cfg rnd s = Continue s'"
  shows "terminal_ok cfg s'"
proof -
  from st obtain t p e ev q where
    hp: "heappop (queue s) = Some ((t, p, e, ev), q)" and
    pe: "process_event cfg rnd ev (s\<lparr>now := t, queue := q\<rparr>) = Continue s'"
    by (rule step_ContinueE)
  let ?s1 = "s\<lparr>now := t, queue := q\<rparr>"
  have none: "owner ev = None \<Longrightarrow> terminal_ok cfg ?s1"
    by (rule pop_none[OF ok hp])
  have some: "\<And>v. owner ev = Some v \<Longrightarrow> popped_ok cfg ?s1 v ev"
    by (rule pop_some[OF ok hp])
  have idle: "owner ev = None \<Longrightarrow> truckers ?s1 = (\<lambda>_. None)"
    using ok by (simp add: terminal_ok_def globals_ok_def)
  show ?thesis
  proof (cases ev)
    case (Initialize pr)
    with pe have s': "s' = resume cfg rnd pr ?s1" by (simp add: process_event_def)
    show ?thesis
    proof (cases pr)
      case Generator
      with Initialize none c show ?thesis
        unfolding s' by (simp add: resume_def generator_step_ok)
    next
      case (VesselP v)
      with Initialize some[of v] show ?thesis
        unfolding s' by (simp add: resume_def arrive_start_ok)
    next
      case (LoadP v)
      with Initialize some[of v] show ?thesis
        unfolding s' by (simp add: resume_def load_start_ok)
    next
      case (TruckP k v)
      with Initialize none idle show ?thesis
        unfolding s' by (simp add: resume_def transport_idle)
    qed
  next
    case (Timeout pr)
    with pe have s': "s' = resume cfg rnd pr ?s1" by (simp add: process_event_def)
    show ?thesis
    proof (cases pr)
      case Generator
      with Timeout none c show ?thesis
        unfolding s' by (simp add: resume_def generator_step_ok)
    next
      case (VesselP v)
      with Timeout some[of v] show ?thesis
        by (simp add: popped_ok_TimeoutVessel)
    next
      case (LoadP v)
      with Timeout some[of v] show ?thesis
        unfolding s' by (simp add: resume_def load_finish_ok)
    next
      case (TruckP k v)
      with Timeout none idle show ?thesis
        unfolding s' by (simp add: resume_def transport_idle)
    qed
  next
    case (Request v)
    with pe some[of v] show ?thesis
      by (auto simp: process_event_def resume_def arrive_berth_ok)
  next
    case (Release v)
    with pe none show ?thesis
      by (auto simp: process_event_def trigger_put_ok)
  next
    case (ProcessEv pr)
    show ?thesis
    proof (cases pr)
      case (LoadP v)
      with ProcessEv pe some[of v] show ?thesis
        by (auto simp: process_event_def resume_def arrive_next_ok)
    qed (use ProcessEv pe none in \<open>auto simp: process_event_def\<close>)
  next
    case (ProcessFail pr er)
    show ?thesis
    proof (cases pr)
      case (LoadP v)
      with ProcessFail pe some[of v] show ?thesis
        by (auto simp: process_event_def arrive_throw_ok)
    qed (use ProcessFail pe in \<open>auto simp: process_event_def\<close>)
  next
    case Until
    with pe show ?thesis by (simp add: process_event_def)
  qed
qed

lemma terminal_ok_start:
  assumes "start cfg = Inr s"
  shows "terminal_ok cfg s"
proof -
  from assms have s: "s = start_state cfg"
    by (auto simp: start_def split: if_splits)
  show ?thesis
    unfolding s
    by (auto simp: start_state_def new_env_def terminal_ok_def vessel_st_def globals_ok_def
        cranes_ok_def holders_def unborn_def releases_ok_def)
qed

lemma terminal_ok_reach:
  assumes "0 \<le> CONTAINERS_PER_VESSEL cfg" and "reach cfg rnd s"
  shows "terminal_ok cfg s"
  using assms(2)
  by (induction rule: reach.induct) (auto intro: terminal_ok_start terminal_ok_step[OF _ assms(1)])

section \<open>Consequences of the consistency of the terminal\<close>









lemma holders_less: "v \<in> set us \<Longrightarrow> \<not> holding (vs v) \<Longrightarrow> holders vs us < length us"
  unfolding holders_def by (rule length_filter_less)

lemma pool_not_empty:
  assumes le: "NUM_BERTHS cfg \<le> NUM_QUAY_CRANES cfg" and c: "0 \<le> CONTAINERS_PER_VESSEL cfg"
    and r: "reach cfg rnd s" and ne: "next_event s = Some (Request v)"
  shows "quay_cranes s \<noteq> []"
proof -
  from ne obtain t p e q where hp: "heappop (queue s) = Some ((t, p, e, Request v), q)"
    by (auto simp: next_event_def split: option.splits)
  have ok: "terminal_ok cfg s" using c r by (rule terminal_ok_reach)
  from pop_some[OF ok hp] have "vessel_st cfg s v [(t, Request v)]"
    by (simp add: popped_ok_def)
  then obtain ves where "vessels s v = Some ves" "vpc ves = VAwaitBerth" "v \<in> set (users s)"
    by (rule vessel_st_Request)
  then have "holders (vessels s) (users s) < length (users s)"
    by (intro holders_less) auto
  moreover have "length (users s) \<le> NUM_BERTHS cfg"
    using in_use_reach[OF r] by (simp add: in_use_def)
  moreover have "NUM_QUAY_CRANES cfg \<le> length (quay_cranes s) + holders (vessels s) (users s)"
    using ok by (simp add: terminal_ok_def globals_ok_def cranes_ok_def)
  ultimately show ?thesis using le by auto
qed

lemma in_set_tl: "x \<in> set (tl xs) \<Longrightarrow> x \<in> set xs"
  by (cases xs) auto

lemma dropWhile_skip: "\<forall>x\<in>set g. P x \<Longrightarrow> dropWhile P (g @ q) = dropWhile P q"
  by (induction g) auto

lemma precedes_suffix:
  assumes "distinct (g @ q)" and "a \<in> set q" and "precedes a b (g @ q)"
  shows "b \<in> set q"
proof -
  have "\<forall>x\<in>set g. x \<noteq> a"
    using assms(1,2) by auto
  then have "dropWhile (\<lambda>z. z \<noteq> a) (g @ q) = dropWhile (\<lambda>z. z \<noteq> a) q"
    by (rule dropWhile_skip)
  with assms(3) have "b \<in> set (tl (dropWhile (\<lambda>z. z \<noteq> a) q))"
    by (simp add: precedes_def)
  then have "b \<in> set (dropWhile (\<lambda>z. z \<noteq> a) q)"
    by (rule in_set_tl)
  then show ?thesis by (rule set_dropWhileD)
qed

section \<open>Departures and the horizon\<close>
















section \<open>The berth resource stays within its capacity\<close>

text \<open>
  C2. At every point of every run the number of berth grants held, \<open>in_use\<close>, lies
  between 0 and the capacity \<^verbatim>\<open>NUM_BERTHS\<close>, and a request or a release made in a state
  within the bound leaves a state within the bound.
\<close>

theorem C2_in_use_within_capacity:
  "(reach cfg rnd s \<longrightarrow> 0 \<le> in_use s \<and> in_use s \<le> NUM_BERTHS cfg) \<and>
   (in_use s \<le> NUM_BERTHS cfg \<longrightarrow>
      in_use (request cfg v s) \<le> NUM_BERTHS cfg \<and> in_use (release w s) \<le> NUM_BERTHS cfg)"
  by (simp add: in_use_reach in_use_request in_use_release)

theorem C2_in_use_within_capacity_witness:
  "reach main_config (\<lambda>_. 0) (exec main_config (\<lambda>_. 0) 8 (start_state main_config)) \<and>
   in_use (exec main_config (\<lambda>_. 0) 8 (start_state main_config)) = 2 \<and>
   NUM_BERTHS main_config = 2 \<and>
   in_use (request main_config 3 (exec main_config (\<lambda>_. 0) 8 (start_state main_config))) \<le> 2 \<and>
   in_use (release 1 (exec main_config (\<lambda>_. 0) 8 (start_state main_config))) \<le> 2"
proof -
  let ?s = "exec main_config (\<lambda>_. 0) 8 (start_state main_config)"
  have r: "reach main_config (\<lambda>_. 0) ?s"
    by (rule reach_main)
  have u: "users ?s = [1, 2]"
    by (simp add: main_config_def sim_defs)
  have n: "NUM_BERTHS main_config = 2"
    by (simp add: main_config_def)
  from C2_in_use_within_capacity[of main_config "\<lambda>_. 0" ?s 3 1] r u n show ?thesis
    by (simp add: in_use_def)
qed

section \<open>Determinism\<close>



section \<open>The scenario of one vessel with three containers\<close>

text \<open>
  C5. With 1 berth, 1 crane, 1 vessel of 3 containers, 3 time units per container and the
  vessel arriving at time 0 (the first draw is 0), the run ends at the horizon and has
  printed exactly: arrival at 0, berthing at 0, crane start at 0, crane finish at 3, crane
  start at 3, crane finish at 6, crane start at 6, crane finish at 9, departure at 9.
\<close>

theorem C5_single_vessel_log:
  "rnd 0 = 0 \<longrightarrow>
     finished (program scenario_config rnd 18) \<and>
     observed (program scenario_config rnd 18) =
       [(0, Arrives 1), (0, Berths 1), (0, CraneStarts 1 1), (3, CraneLoads 1 1),
        (3, CraneStarts 1 1), (6, CraneLoads 1 1), (6, CraneStarts 1 1),
        (9, CraneLoads 1 1), (9, Leaves 1)]"
  by (simp add: scenario_config_def main_config_def sim_defs)

theorem C5_single_vessel_log_witness:
  "(\<lambda>_. 0 :: real) (0 :: nat) = 0 \<and>
   finished (program scenario_config (\<lambda>_. 0) 18) \<and>
   observed (program scenario_config (\<lambda>_. 0) 18) =
       [(0, Arrives 1), (0, Berths 1), (0, CraneStarts 1 1), (3, CraneLoads 1 1),
        (3, CraneStarts 1 1), (6, CraneLoads 1 1), (6, CraneStarts 1 1),
        (9, CraneLoads 1 1), (9, Leaves 1)]"
  using C5_single_vessel_log[of "\<lambda>_. 0"] by simp

section \<open>The crane service step\<close>

text \<open>
  C4. A \<^verbatim>\<open>load_container\<close> process is one suspension of \<^verbatim>\<open>CRANE_CONTAINER_TIME\<close>: when
  started it prints the start line, leaves the vessel's containers as they are and waits
  for exactly one timeout, due \<^verbatim>\<open>CRANE_CONTAINER_TIME\<close> after the current time; when that
  timeout fires it takes exactly 1 from the vessel's \<^verbatim>\<open>containers_left\<close>, prints the
  finish line and ends at that same time, with no further suspension.
\<close>

theorem C4_load_container_is_one_timed_step:
  "(loaders s v = Some (c, LCreated) \<and> 0 \<le> CRANE_CONTAINER_TIME cfg \<longrightarrow>
      vessels (load_container cfg v s) = vessels s \<and>
      loaders (load_container cfg v s) v = Some (c, LAwaitTimeout) \<and>
      queue (load_container cfg v s) =
        queue s @ [(now s + CRANE_CONTAINER_TIME cfg, NORMAL, eid s, Timeout (LoadP v))] \<and>
      printed (load_container cfg v s) = printed s @ [(now s, CraneStarts c v)]) \<and>
   (loaders r v = Some (c, LAwaitTimeout) \<and> vessels r v = Some ves \<longrightarrow>
      vessels (load_container cfg v r) =
        (vessels r)(v \<mapsto> ves\<lparr>containers_left := containers_left ves - 1\<rparr>) \<and>
      loaders (load_container cfg v r) v = None \<and>
      now (load_container cfg v r) = now r \<and>
      queue (load_container cfg v r) = queue r @ [(now r, NORMAL, eid r, ProcessEv (LoadP v))] \<and>
      printed (load_container cfg v r) = printed r @ [(now r, CraneLoads c v)])"
  by (simp add: load_container_def finish_def Let_def)

theorem C4_load_container_is_one_timed_step_witness:
  "loaders (exec main_config (\<lambda>_. 0) 6 (start_state main_config)) 1 = Some (1, LCreated) \<and>
   0 \<le> CRANE_CONTAINER_TIME main_config \<and>
   loaders (exec main_config (\<lambda>_. 0) 7 (start_state main_config)) 1 = Some (1, LAwaitTimeout) \<and>
   vessels (exec main_config (\<lambda>_. 0) 7 (start_state main_config)) 1 =
     Some \<lparr>containers_left = 150, vpc = VUnloading 1\<rparr> \<and>
   queue (load_container main_config 1 (exec main_config (\<lambda>_. 0) 6 (start_state main_config))) =
     [(720, 0, 1, Until), (0, 1, 7, Timeout Generator), (0, 1, 8, Request 2),
      (0, 0, 9, Initialize (LoadP 1)), (3, 1, 10, Timeout (LoadP 1))] \<and>
   vessels (load_container main_config 1 (exec main_config (\<lambda>_. 0) 6 (start_state main_config))) 1 =
     Some \<lparr>containers_left = 150, vpc = VUnloading 1\<rparr> \<and>
   vessels (load_container main_config 1 (exec main_config (\<lambda>_. 0) 7 (start_state main_config))) 1 =
     Some \<lparr>containers_left = 149, vpc = VUnloading 1\<rparr> \<and>
   loaders (load_container main_config 1 (exec main_config (\<lambda>_. 0) 7 (start_state main_config))) 1 = None"
proof -
  let ?s = "exec main_config (\<lambda>_. 0) 6 (start_state main_config)"
  let ?r = "exec main_config (\<lambda>_. 0) 7 (start_state main_config)"
  have h1: "loaders ?s 1 = Some (1, LCreated)"
    by (simp add: main_config_def sim_defs)
  have h2: "0 \<le> CRANE_CONTAINER_TIME main_config"
    by (simp add: main_config_def)
  have h3: "loaders ?r 1 = Some (1, LAwaitTimeout)"
    by (simp add: main_config_def sim_defs)
  have h4: "vessels ?r 1 = Some \<lparr>containers_left = 150, vpc = VUnloading 1\<rparr>"
    by (simp add: main_config_def sim_defs)
  have q: "queue ?s = [(720, 0, 1, Until), (0, 1, 7, Timeout Generator), (0, 1, 8, Request 2),
      (0, 0, 9, Initialize (LoadP 1))]"
    by (simp add: main_config_def sim_defs)
  have t: "now ?s = 0" "eid ?s = 10"
    by (simp_all add: main_config_def sim_defs)
  have v: "vessels ?s 1 = Some \<lparr>containers_left = 150, vpc = VUnloading 1\<rparr>"
    by (simp add: main_config_def sim_defs)
  have c: "CRANE_CONTAINER_TIME main_config = 3"
    by (simp add: main_config_def)
  from C4_load_container_is_one_timed_step
         [of ?s 1 1 main_config ?r "\<lparr>containers_left = 150, vpc = VUnloading 1\<rparr>"]
       h1 h2 h3 h4 q t v c
  show ?thesis
    by (simp add: NORMAL_def)
qed

section \<open>Trucks never run\<close>

text \<open>
  C9. In every run the truck transport step is never invoked: at every point no
  \<^verbatim>\<open>transport_container\<close> process exists, no event of such a process is in the event
  queue, and no line of a truck has been printed.
\<close>

theorem C9_trucks_never_run:
  "reach cfg rnd s \<longrightarrow>
     truckers s = (\<lambda>_. None) \<and>
     list_all (\<lambda>(t, p, e, ev). \<not> truck_event ev) (queue s) \<and>
     list_all (\<lambda>(t, m). \<not> truck_message m) (printed s)"
  using trucks_idle_reach[of cfg rnd s] by (simp add: trucks_idle_def)

theorem C9_trucks_never_run_witness:
  "reach main_config (\<lambda>_. 0) (exec main_config (\<lambda>_. 0) 12 (start_state main_config)) \<and>
   printed (exec main_config (\<lambda>_. 0) 12 (start_state main_config)) =
     [(0, Arrives 1), (0, Arrives 2), (0, Berths 1), (0, CraneStarts 1 1), (0, Arrives 3),
      (0, Berths 2), (0, CraneStarts 2 2)] \<and>
   list_all (\<lambda>(t, m). \<not> truck_message m)
     (printed (exec main_config (\<lambda>_. 0) 12 (start_state main_config)))"
proof -
  let ?s = "exec main_config (\<lambda>_. 0) 12 (start_state main_config)"
  have r: "reach main_config (\<lambda>_. 0) ?s"
    by (rule reach_main)
  have p: "printed ?s =
     [(0, Arrives 1), (0, Arrives 2), (0, Berths 1), (0, CraneStarts 1 1), (0, Arrives 3),
      (0, Berths 2), (0, CraneStarts 2 2)]"
    by (simp add: main_config_def sim_defs)
  from C9_trucks_never_run[of main_config "\<lambda>_. 0" ?s] r p show ?thesis
    by simp
qed

section \<open>Containers of a vessel\<close>



section \<open>Berths are granted in the order of the requests\<close>

text \<open>
  C3. Berth requests are granted strictly in request order. At every point of a run the
  wait queue of the berth resource is the tail of the sequence of requests made so far
  (no vessel requests twice), so whenever a vessel A is still queued, every vessel B that
  requested after A is still queued too: it holds no berth and has not berthed, whatever
  the times of the request and release events.
\<close>

theorem C3_berths_granted_in_request_order:
  "0 \<le> CONTAINERS_PER_VESSEL cfg \<and> reach cfg rnd s \<longrightarrow>
     suffix (put_queue s) (arrivals (printed s)) \<and> distinct (arrivals (printed s)) \<and>
     (\<forall>a b. a \<in> set (put_queue s) \<and> precedes a b (arrivals (printed s)) \<longrightarrow>
        b \<in> set (put_queue s) \<and> b \<notin> set (users s) \<and> time_of (Berths b) (printed s) = None)"
proof (intro impI)
  assume "0 \<le> CONTAINERS_PER_VESSEL cfg \<and> reach cfg rnd s"
  then have ok: "terminal_ok cfg s" by (auto intro: terminal_ok_reach)
  then have sf: "suffix (put_queue s) (arrivals (printed s))" and d: "distinct (arrivals (printed s))"
    and all: "\<And>v. vessel_st cfg s v (pending v (queue s))"
    by (simp_all add: terminal_ok_def globals_ok_def)
  from sf obtain g where g: "arrivals (printed s) = g @ put_queue s"
    by (auto simp: suffix_def)
  have "b \<in> set (put_queue s) \<and> b \<notin> set (users s) \<and> time_of (Berths b) (printed s) = None"
    if "a \<in> set (put_queue s)" "precedes a b (arrivals (printed s))" for a b
  proof -
    have d': "distinct (g @ put_queue s)" using d g by simp
    have p': "precedes a b (g @ put_queue s)" using that(2) g by simp
    have b: "b \<in> set (put_queue s)"
      by (rule precedes_suffix[OF d' that(1) p'])
    from all[of b] b have "b \<notin> set (users s) \<and> time_of (Berths b) (printed s) = None"
      by (rule vessel_st_queued) simp
    with b show ?thesis by simp
  qed
  then have "\<forall>a b. a \<in> set (put_queue s) \<and> precedes a b (arrivals (printed s)) \<longrightarrow>
        b \<in> set (put_queue s) \<and> b \<notin> set (users s) \<and> time_of (Berths b) (printed s) = None"
    by (intro allI impI) (elim conjE)
  with sf d show "suffix (put_queue s) (arrivals (printed s)) \<and> distinct (arrivals (printed s)) \<and>
     (\<forall>a b. a \<in> set (put_queue s) \<and> precedes a b (arrivals (printed s)) \<longrightarrow>
        b \<in> set (put_queue s) \<and> b \<notin> set (users s) \<and> time_of (Berths b) (printed s) = None)"
    by (intro conjI)
qed

theorem C3_berths_granted_in_request_order_witness:
  "0 \<le> CONTAINERS_PER_VESSEL main_config \<and>
   reach main_config (\<lambda>_. 0) (exec main_config (\<lambda>_. 0) 14 (start_state main_config)) \<and>
   put_queue (exec main_config (\<lambda>_. 0) 14 (start_state main_config)) = [3, 4] \<and>
   arrivals (printed (exec main_config (\<lambda>_. 0) 14 (start_state main_config))) = [1, 2, 3, 4] \<and>
   users (exec main_config (\<lambda>_. 0) 14 (start_state main_config)) = [1, 2] \<and>
   precedes 3 4 (arrivals (printed (exec main_config (\<lambda>_. 0) 14 (start_state main_config)))) \<and>
   4 \<notin> set (users (exec main_config (\<lambda>_. 0) 14 (start_state main_config))) \<and>
   time_of (Berths 4) (printed (exec main_config (\<lambda>_. 0) 14 (start_state main_config))) = None"
proof -
  let ?s = "exec main_config (\<lambda>_. 0) 14 (start_state main_config)"
  have c: "0 \<le> CONTAINERS_PER_VESSEL main_config"
    by (simp add: main_config_def)
  have r: "reach main_config (\<lambda>_. 0) ?s"
    by (rule reach_main)
  have q: "put_queue ?s = [3, 4]"
    by (simp add: main_config_def sim_defs)
  have u: "users ?s = [1, 2]"
    by (simp add: main_config_def sim_defs)
  have p: "printed ?s =
     [(0, Arrives 1), (0, Arrives 2), (0, Berths 1), (0, CraneStarts 1 1), (0, Arrives 3),
      (0, Berths 2), (0, CraneStarts 2 2), (0, Arrives 4)]"
    by (simp add: main_config_def sim_defs)
  have a: "arrivals (printed ?s) = [1, 2, 3, 4]"
    unfolding p by (simp add: arrivals_def)
  have b: "precedes 3 4 (arrivals (printed ?s))"
    unfolding a by (simp add: precedes_def)
  have i: "3 \<in> set (put_queue ?s)"
    unfolding q by simp
  from C3_berths_granted_in_request_order[of main_config "\<lambda>_. 0" ?s] c r
  have "\<forall>a b. a \<in> set (put_queue ?s) \<and> precedes a b (arrivals (printed ?s)) \<longrightarrow>
          b \<in> set (put_queue ?s) \<and> b \<notin> set (users ?s) \<and>
          time_of (Berths b) (printed ?s) = None"
    by simp
  from this[rule_format, of 3 4] i b
  have "4 \<notin> set (users ?s) \<and> time_of (Berths 4) (printed ?s) = None"
    by simp
  with c r q u a b show ?thesis by simp
qed

section \<open>The crane pool\<close>

text \<open>
  C8. Taking a crane is \<^verbatim>\<open>quay_cranes.pop(0)\<close> on a plain list: a vessel that has been
  granted its berth and finds the pool empty fails with \<^verbatim>\<open>IndexError\<close>. When there are at
  least as many cranes as berths (and the configuration is well formed,
  \<^verbatim>\<open>CONTAINERS_PER_VESSEL\<close> not negative), the pool is not empty whenever a vessel is
  about to take a crane, that is, whenever the next event of a run is a granted berth
  request.
\<close>

theorem C8_crane_pool_never_empty:
  "(vessels s v = Some ves \<and> vpc ves = VAwaitBerth \<and> quay_cranes s = [] \<longrightarrow>
      vessels (arrive cfg' v s) v = Some (ves\<lparr>vpc := VCrashed\<rparr>) \<and>
      queue (arrive cfg' v s) =
        queue s @ [(now s, NORMAL, eid s, ProcessFail (VesselP v) IndexError)]) \<and>
   (NUM_BERTHS cfg \<le> NUM_QUAY_CRANES cfg \<and> 0 \<le> CONTAINERS_PER_VESSEL cfg \<and>
    reach cfg rnd r \<and> next_event r = Some (Request w) \<longrightarrow> quay_cranes r \<noteq> [])"
proof (intro conjI impI)
  assume "vessels s v = Some ves \<and> vpc ves = VAwaitBerth \<and> quay_cranes s = []"
  then show "vessels (arrive cfg' v s) v = Some (ves\<lparr>vpc := VCrashed\<rparr>)"
    and "queue (arrive cfg' v s) =
           queue s @ [(now s, NORMAL, eid s, ProcessFail (VesselP v) IndexError)]"
    by (simp_all add: arrive_def crash_def Let_def)
next
  assume "NUM_BERTHS cfg \<le> NUM_QUAY_CRANES cfg \<and> 0 \<le> CONTAINERS_PER_VESSEL cfg \<and>
    reach cfg rnd r \<and> next_event r = Some (Request w)"
  then show "quay_cranes r \<noteq> []"
    using pool_not_empty[of cfg rnd r w] by simp
qed

theorem C8_crane_pool_never_empty_witness:
  "vessels (exec one_crane_config (\<lambda>_. 0) 9 (start_state one_crane_config)) 2 =
     Some \<lparr>containers_left = 150, vpc = VAwaitBerth\<rparr> \<and>
   quay_cranes (exec one_crane_config (\<lambda>_. 0) 9 (start_state one_crane_config)) = [] \<and>
   vessels (arrive one_crane_config 2 (exec one_crane_config (\<lambda>_. 0) 9 (start_state one_crane_config))) 2 =
     Some \<lparr>containers_left = 150, vpc = VCrashed\<rparr> \<and>
   NUM_BERTHS main_config \<le> NUM_QUAY_CRANES main_config \<and>
   0 \<le> CONTAINERS_PER_VESSEL main_config \<and>
   reach main_config (\<lambda>_. 0) (exec main_config (\<lambda>_. 0) 9 (start_state main_config)) \<and>
   next_event (exec main_config (\<lambda>_. 0) 9 (start_state main_config)) = Some (Request 2) \<and>
   quay_cranes (exec main_config (\<lambda>_. 0) 9 (start_state main_config)) = [2]"
proof -
  let ?s = "exec one_crane_config (\<lambda>_. 0) 9 (start_state one_crane_config)"
  let ?r = "exec main_config (\<lambda>_. 0) 9 (start_state main_config)"
  have v: "vessels ?s 2 = Some \<lparr>containers_left = 150, vpc = VAwaitBerth\<rparr>"
    by (simp add: one_crane_config_def main_config_def sim_defs)
  have e: "quay_cranes ?s = []"
    by (simp add: one_crane_config_def main_config_def sim_defs)
  have c: "NUM_BERTHS main_config \<le> NUM_QUAY_CRANES main_config"
    "0 \<le> CONTAINERS_PER_VESSEL main_config"
    by (simp_all add: main_config_def)
  have r: "reach main_config (\<lambda>_. 0) ?r"
    by (rule reach_main)
  have n: "next_event ?r = Some (Request 2)"
    by (simp add: main_config_def next_event_def sim_defs)
  have p: "quay_cranes ?r = [2]"
    by (simp add: main_config_def sim_defs)
  from C8_crane_pool_never_empty
         [of ?s 2 "\<lparr>containers_left = 150, vpc = VAwaitBerth\<rparr>" one_crane_config
             main_config "\<lambda>_. 0" ?r 2]
       v e c r n p
  show ?thesis by simp
qed

section \<open>The time of a departure\<close>




section \<open>The arrival generator\<close>




end
